theory Spec2Isabelle
  imports Main
begin

section \<open>Route matching and middleware dispatch of the NinoTS core\<close>

text \<open>
  The development embeds the router (\<^verbatim>\<open>Router.pathToRegex\<close>, \<^verbatim>\<open>Router.matchPath\<close>,
  \<^verbatim>\<open>Router.findRoute\<close>, \<^verbatim>\<open>Router.use\<close>, \<^verbatim>\<open>Router.addRoute\<close>) and the application
  dispatcher (\<^verbatim>\<open>NinoApp.handleRequest\<close>, \<^verbatim>\<open>NinoApp.executeMiddlewareChain\<close>,
  \<^verbatim>\<open>NinoApp.handleNotFound\<close>, \<^verbatim>\<open>NinoApp.handleError\<close>, \<^verbatim>\<open>Context.status\<close>,
  \<^verbatim>\<open>Context.json\<close>).

  JavaScript strings are modelled as \<^typ>\<open>string\<close>: a list of 8-bit code units.
\<close>

subsection \<open>The regular expressions of the host language\<close>

text \<open>
  \<^verbatim>\<open>pathToRegex\<close> builds the source text of a regular expression and hands it to
  \<^verbatim>\<open>new RegExp\<close>; \<^verbatim>\<open>matchPath\<close> applies it with \<^verbatim>\<open>String.prototype.match\<close>. Both belong
  to the host language, not to the repository. They are modelled for the following
  fragment of the ECMAScript pattern grammar (no flags): pattern characters, \<^verbatim>\<open>.\<close>,
  the assertions \<^verbatim>\<open>^\<close> and \<^verbatim>\<open>$\<close>, capturing groups, alternation, character classes
  that list single characters (possibly negated), the greedy quantifiers
  \<^verbatim>\<open>*\<close>, \<^verbatim>\<open>+\<close>, \<^verbatim>\<open>?\<close>, and identity escapes of syntax characters. Source text that
  uses anything else is reported as \<open>Unmodelled\<close>, never given a meaning.
\<close>

datatype rx =
    RChar char
  | RAny
  | RClass bool "char list"
  | RBol
  | REol
  | RGroup nat rx
  | RStar rx
  | RPlus rx
  | ROpt rx
  | RSeq "rx list"
  | RAlt "rx list"

datatype rx_error = SyntaxError | Unmodelled

text \<open>
  The parser reads the source text from left to right. \<open>cur\<close> holds the terms of the
  alternative being read, last term first; \<open>alts\<close> the finished alternatives of the
  group being read; \<open>stack\<close> the enclosing groups, innermost first, each with its
  capture index and its own \<open>alts\<close> and \<open>cur\<close>.
\<close>

datatype pmode = MNormal | MEscape | MClassOpen | MClass bool "char list"

record pstate =
  pmode :: pmode
  cur :: "rx list"
  alts :: "rx list"
  stack :: "(nat \<times> rx list \<times> rx list) list"
  ngroups :: nat
  opened :: bool
  failure :: "rx_error option"

definition pinit :: pstate where
  "pinit = \<lparr>pmode = MNormal, cur = [], alts = [], stack = [], ngroups = 0,
            opened = False, failure = None\<rparr>"

definition pfail :: "rx_error \<Rightarrow> pstate \<Rightarrow> pstate" where
  "pfail e st = st\<lparr>failure := Some e\<rparr>"

definition patom :: "rx \<Rightarrow> pstate \<Rightarrow> pstate" where
  "patom r st = st\<lparr>pmode := MNormal, cur := r # cur st, opened := False\<rparr>"

definition syntaxChars :: "char list" where
  "syntaxChars = [CHR 0x5C, CHR ''^'', CHR ''$'', CHR ''.'', CHR ''*'', CHR ''+'', CHR ''?'',
                  CHR ''('', CHR '')'', CHR ''['', CHR '']'', CHR ''{'', CHR ''}'', CHR ''|'']"

fun quantified :: "rx \<Rightarrow> bool" where
  "quantified (RStar r) = True"
| "quantified (RPlus r) = True"
| "quantified (ROpt r) = True"
| "quantified r = False"

fun assertion :: "rx \<Rightarrow> bool" where
  "assertion RBol = True"
| "assertion REol = True"
| "assertion r = False"

text \<open>
  A quantifier applies to the term before it. With no term, or after an assertion, there
  is nothing to repeat. After a quantified term \<^verbatim>\<open>?\<close> would make the quantifier lazy,
  and directly after \<^verbatim>\<open>(\<close> it opens a group of another kind: neither is modelled.
\<close>

definition pquant :: "char \<Rightarrow> (rx \<Rightarrow> rx) \<Rightarrow> pstate \<Rightarrow> pstate" where
  "pquant c q st =
     (case cur st of
        [] \<Rightarrow> if c = CHR ''?'' \<and> opened st then pfail Unmodelled st else pfail SyntaxError st
      | r # rs \<Rightarrow>
          if assertion r then pfail SyntaxError st
          else if quantified r then
            (if c = CHR ''?'' then pfail Unmodelled st else pfail SyntaxError st)
          else st\<lparr>cur := q r # rs, opened := False\<rparr>)"

definition pnormal :: "pstate \<Rightarrow> char \<Rightarrow> pstate" where
  "pnormal st c =
     (if c = CHR 0x5C then st\<lparr>pmode := MEscape, opened := False\<rparr>
      else if c = CHR ''['' then st\<lparr>pmode := MClassOpen, opened := False\<rparr>
      else if c = CHR ''('' then
        st\<lparr>cur := [], alts := [], stack := (ngroups st, alts st, cur st) # stack st,
           ngroups := Suc (ngroups st), opened := True\<rparr>
      else if c = CHR '')'' then
        (case stack st of
           [] \<Rightarrow> pfail SyntaxError st
         | (k, as, rs) # fs \<Rightarrow>
             st\<lparr>cur := RGroup k (RAlt (alts st @ [RSeq (rev (cur st))])) # rs, alts := as,
                stack := fs, opened := False\<rparr>)
      else if c = CHR ''|'' then
        st\<lparr>cur := [], alts := alts st @ [RSeq (rev (cur st))], opened := False\<rparr>
      else if c = CHR ''*'' then pquant c RStar st
      else if c = CHR ''+'' then pquant c RPlus st
      else if c = CHR ''?'' then pquant c ROpt st
      else if c = CHR ''.'' then patom RAny st
      else if c = CHR ''^'' then patom RBol st
      else if c = CHR ''$'' then patom REol st
      else if c = CHR '']'' \<or> c = CHR ''{'' \<or> c = CHR ''}'' then pfail Unmodelled st
      else patom (RChar c) st)"

definition pstep :: "pstate \<Rightarrow> char \<Rightarrow> pstate" where
  "pstep st c =
     (if failure st \<noteq> None then st
      else case pmode st of
        MNormal \<Rightarrow> pnormal st c
      | MEscape \<Rightarrow>
          if c \<in> set syntaxChars \<or> c = CHR ''/'' then patom (RChar c) st
          else pfail Unmodelled st
      | MClassOpen \<Rightarrow>
          if c = CHR ''^'' then st\<lparr>pmode := MClass True []\<rparr>
          else if c = CHR '']'' then patom (RClass False []) st
          else if c = CHR 0x5C then pfail Unmodelled st
          else st\<lparr>pmode := MClass False [c]\<rparr>
      | MClass neg ms \<Rightarrow>
          if c = CHR '']'' then patom (RClass neg ms) st
          else if c = CHR 0x5C then pfail Unmodelled st
          else if c = CHR ''-'' \<and> ms \<noteq> [] then pfail Unmodelled st
          else st\<lparr>pmode := MClass neg (ms @ [c])\<rparr>)"

text \<open>
  \<^verbatim>\<open>new RegExp(source)\<close>: the pattern and the number of its capturing groups, or the
  exception. An unfinished escape, class or group is a syntax error.
\<close>

definition pfinish :: "pstate \<Rightarrow> rx_error + (rx \<times> nat)" where
  "pfinish st =
     (case failure st of
        Some e \<Rightarrow> Inl e
      | None \<Rightarrow>
          if pmode st \<noteq> MNormal \<or> stack st \<noteq> [] then Inl SyntaxError
          else Inr (RAlt (alts st @ [RSeq (rev (cur st))]), ngroups st))"

definition newRegExp :: "string \<Rightarrow> rx_error + (rx \<times> nat)" where
  "newRegExp src = pfinish (foldl pstep pinit src)"


text \<open>
  Matching follows the backtracking semantics of the language standard. A matcher gets
  the rest of the input and the captures so far and returns, in order of priority, every
  way to go on: the rest of the input after the match and the new captures. \<open>n\<close> is
  the length of the whole input, which \<^verbatim>\<open>^\<close> needs. Each round of a quantifier
  first forgets the captures of the groups inside it, and a round after the compulsory
  ones that matches the empty string is dropped.
\<close>

type_synonym caps = "string option list"

fun groupsOf :: "rx \<Rightarrow> nat list" and groupsOfList :: "rx list \<Rightarrow> nat list" where
  "groupsOf (RGroup k r) = k # groupsOf r"
| "groupsOf (RStar r) = groupsOf r"
| "groupsOf (RPlus r) = groupsOf r"
| "groupsOf (ROpt r) = groupsOf r"
| "groupsOf (RSeq rs) = groupsOfList rs"
| "groupsOf (RAlt rs) = groupsOfList rs"
| "groupsOf (RChar c) = []"
| "groupsOf RAny = []"
| "groupsOf (RClass neg ms) = []"
| "groupsOf RBol = []"
| "groupsOf REol = []"
| "groupsOfList [] = []"
| "groupsOfList (r # rs) = groupsOf r @ groupsOfList rs"

definition clearCaps :: "rx \<Rightarrow> caps \<Rightarrow> caps" where
  "clearCaps r caps = foldl (\<lambda>cs k. cs[k := None]) caps (groupsOf r)"

text \<open>Without the \<^verbatim>\<open>s\<close> flag, \<^verbatim>\<open>.\<close> matches no line terminator.\<close>

definition lineTerminator :: "char \<Rightarrow> bool" where
  "lineTerminator c = (c = CHR 0x0A \<or> c = CHR 0x0D)"

function matchRx :: "nat \<Rightarrow> rx \<Rightarrow> string \<Rightarrow> caps \<Rightarrow> (string \<times> caps) list"
  and matchSeq :: "nat \<Rightarrow> rx list \<Rightarrow> string \<Rightarrow> caps \<Rightarrow> (string \<times> caps) list"
  and matchStar :: "nat \<Rightarrow> rx \<Rightarrow> string \<Rightarrow> caps \<Rightarrow> (string \<times> caps) list"
where
  "matchRx n (RChar c) s caps =
     (case s of [] \<Rightarrow> [] | x # xs \<Rightarrow> if x = c then [(xs, caps)] else [])"
| "matchRx n RAny s caps =
     (case s of [] \<Rightarrow> [] | x # xs \<Rightarrow> if lineTerminator x then [] else [(xs, caps)])"
| "matchRx n (RClass neg ms) s caps =
     (case s of [] \<Rightarrow> [] | x # xs \<Rightarrow> if (x \<in> set ms) = neg then [] else [(xs, caps)])"
| "matchRx n RBol s caps = (if length s = n then [(s, caps)] else [])"
| "matchRx n REol s caps = (if s = [] then [(s, caps)] else [])"
| "matchRx n (RGroup k r) s caps =
     map (\<lambda>(s', caps'). (s', caps'[k := Some (take (length s - length s') s)]))
         (matchRx n r s caps)"
| "matchRx n (RStar r) s caps = matchStar n r s caps"
| "matchRx n (RPlus r) s caps =
     concat (map (\<lambda>(s', caps'). matchStar n r s' caps') (matchRx n r s (clearCaps r caps)))"
| "matchRx n (ROpt r) s caps =
     filter (\<lambda>(s', caps'). length s' < length s) (matchRx n r s (clearCaps r caps))
     @ [(s, caps)]"
| "matchRx n (RSeq rs) s caps = matchSeq n rs s caps"
| "matchRx n (RAlt rs) s caps = concat (map (\<lambda>r. matchRx n r s caps) rs)"
| "matchSeq n [] s caps = [(s, caps)]"
| "matchSeq n (r # rs) s caps =
     concat (map (\<lambda>(s', caps'). matchSeq n rs s' caps') (matchRx n r s caps))"
| "matchStar n r s caps =
     concat (map (\<lambda>(s', caps'). if length s' < length s then matchStar n r s' caps' else [])
                 (matchRx n r s (clearCaps r caps)))
     @ [(s, caps)]"
  by pat_completeness auto
termination
  by (relation "inv_image (less_than <*lex*> less_than <*lex*> less_than)
       (\<lambda>x. case x of
          Inl (n, r, s, caps) \<Rightarrow> (size r, 0, length s)
        | Inr (Inl (n, rs, s, caps)) \<Rightarrow> (size_list size rs, 0, length s)
        | Inr (Inr (n, r, s, caps)) \<Rightarrow> (size r, 1, length s))")
     (auto simp: less_Suc_eq_le size_list_estimation')

declare matchStar.simps [simp del]

text \<open>
  \<^verbatim>\<open>str.match(regexp)\<close> for a regular expression without flags: the match is tried at
  every start index from 0 on; the result is the array of the matched text and the
  captures (\<open>None\<close> for \<^verbatim>\<open>undefined\<close>), or \<open>None\<close> for \<^verbatim>\<open>null\<close>.
\<close>

type_synonym regexp = "rx \<times> nat"

fun execFrom :: "regexp \<Rightarrow> nat \<Rightarrow> string \<Rightarrow> (string option list) option" where
  "execFrom re n s =
     (case matchRx n (fst re) s (replicate (snd re) None) of
        (s', caps) # _ \<Rightarrow> Some (Some (take (length s - length s') s) # caps)
      | [] \<Rightarrow> (case s of [] \<Rightarrow> None | _ # t \<Rightarrow> execFrom re n t))"

declare execFrom.simps [simp del]

definition stringMatch :: "string \<Rightarrow> regexp \<Rightarrow> (string option list) option" where
  "stringMatch str re = execFrom re (length str) str"

subsection \<open>Router: from a route pattern to a match\<close>

text \<open>
  \<^verbatim>\<open>path.replace(/:[^/]+/g, ...)\<close>: every \<^verbatim>\<open>:\<close> followed by at least one character other
  than \<^verbatim>\<open>/\<close> is replaced, together with all such characters after it, by a capturing
  group; the characters are recorded as the key.
\<close>

function replaceParams :: "string \<Rightarrow> string \<times> string list" where
  "replaceParams [] = ([], [])"
| "replaceParams (c # cs) =
     (if c = CHR '':'' \<and> takeWhile (\<lambda>x. x \<noteq> CHR ''/'') cs \<noteq> [] then
        (case replaceParams (dropWhile (\<lambda>x. x \<noteq> CHR ''/'') cs) of
           (out, keys) \<Rightarrow> (''([^/]+)'' @ out, takeWhile (\<lambda>x. x \<noteq> CHR ''/'') cs # keys))
      else (case replaceParams cs of (out, keys) \<Rightarrow> (c # out, keys)))"
  by pat_completeness auto
termination
  by (relation "measure length") (auto simp: less_Suc_eq_le length_dropWhile_le)

text \<open>\<^verbatim>\<open>.replace(/\*/g, ".*")\<close>\<close>

definition replaceStars :: "string \<Rightarrow> string" where
  "replaceStars s = concat (map (\<lambda>c. if c = CHR ''*'' then ''.*'' else [c]) s)"

record path_pattern =
  pattern :: regexp
  keys :: "string list"

definition pathToRegex :: "string \<Rightarrow> rx_error + path_pattern" where
  "pathToRegex path =
     (case replaceParams path of
        (out, ks) \<Rightarrow>
          (case newRegExp (''^'' @ replaceStars out @ ''$'') of
             Inl e \<Rightarrow> Inl e
           | Inr re \<Rightarrow> Inr \<lparr>pattern = re, keys = ks\<rparr>))"

text \<open>
  \<^verbatim>\<open>params[key] = match[index + 1] || ""\<close> on an object literal. Assigning a string to
  the key \<^verbatim>\<open>__proto__\<close> of an ordinary object creates no property.
\<close>

type_synonym params = "string \<rightharpoonup> string"

definition setParam :: "params \<Rightarrow> string \<Rightarrow> string \<Rightarrow> params" where
  "setParam ps key v = (if key = ''__proto__'' then ps else ps(key \<mapsto> v))"

definition orEmpty :: "string option list \<Rightarrow> nat \<Rightarrow> string" where
  "orEmpty m i = (if i < length m then (case m ! i of None \<Rightarrow> [] | Some v \<Rightarrow> v) else [])"

definition matchPath :: "string \<Rightarrow> string \<Rightarrow> rx_error + params option" where
  "matchPath pat path =
     (case pathToRegex pat of
        Inl e \<Rightarrow> Inl e
      | Inr pathPattern \<Rightarrow>
          (case stringMatch path (pattern pathPattern) of
             None \<Rightarrow> Inr None
           | Some m \<Rightarrow>
               Inr (Some (foldl (\<lambda>ps (key, index). setParam ps key (orEmpty m (index + 1)))
                                Map.empty
                                (zip (keys pathPattern) [0..<length (keys pathPattern)])))))"


subsection \<open>Route patterns as the specification reads them\<close>

text \<open>
  The specification describes a pattern as literal characters, parameters \<^verbatim>\<open>:name\<close>
  (the name runs up to the next \<^verbatim>\<open>/\<close>) and wildcards \<^verbatim>\<open>*\<close>, and says what each
  matches. \<open>segments\<close> reads a pattern string that way; \<open>fits\<close> is what one part of
  the pattern matches: a literal character itself, a parameter a non-empty text without
  \<^verbatim>\<open>/\<close>, a wildcard any text without a line terminator. A path matches when it is the
  concatenation of pieces that fit the parts in order, and \<open>bindings\<close> pairs each
  parameter name with its piece.
\<close>

datatype seg = Lit char | Param string | Wild

function segments :: "string \<Rightarrow> seg list" where
  "segments [] = []"
| "segments (c # cs) =
     (if c = CHR '':'' \<and> takeWhile (\<lambda>x. x \<noteq> CHR ''/'') cs \<noteq> [] then
        Param (takeWhile (\<lambda>x. x \<noteq> CHR ''/'') cs) # segments (dropWhile (\<lambda>x. x \<noteq> CHR ''/'') cs)
      else if c = CHR ''*'' then Wild # segments cs
      else Lit c # segments cs)"
  by pat_completeness auto
termination
  by (relation "measure length") (auto simp: less_Suc_eq_le length_dropWhile_le)

fun fits :: "seg \<Rightarrow> string \<Rightarrow> bool" where
  "fits (Lit c) s = (s = [c])"
| "fits (Param name) s = (s \<noteq> [] \<and> CHR ''/'' \<notin> set s)"
| "fits Wild s = (\<forall>x\<in>set s. \<not> lineTerminator x)"

fun bindings :: "seg list \<Rightarrow> string list \<Rightarrow> (string \<times> string) list" where
  "bindings (Param name # ss) (p # ps) = (name, p) # bindings ss ps"
| "bindings (s # ss) (p # ps) = bindings ss ps"
| "bindings ss ps = []"

definition paramsOf :: "(string \<times> string) list \<Rightarrow> params" where
  "paramsOf kvs = foldl (\<lambda>ps (key, v). setParam ps key v) Map.empty kvs"

text \<open>
  \<open>plain\<close>: no literal character of the pattern is a syntax character of regular
  expressions. \<open>literal\<close>: the pattern has literal characters only.
\<close>

fun plainSeg :: "seg \<Rightarrow> bool" where
  "plainSeg (Lit c) = (c \<notin> set syntaxChars)"
| "plainSeg s = True"

definition plain :: "string \<Rightarrow> bool" where
  "plain pat = list_all plainSeg (segments pat)"

fun literalSeg :: "seg \<Rightarrow> bool" where
  "literalSeg (Lit c) = (c \<notin> set syntaxChars)"
| "literalSeg s = False"

definition literal :: "string \<Rightarrow> bool" where
  "literal pat = list_all literalSeg (segments pat)"

text \<open>
  For the proofs: the text of a part after the first and after the second replacement of
  \<open>pathToRegex\<close>, the parameter names, and the terms that \<open>newRegExp\<close> reads from
  the text when \<open>k\<close> groups came before.
\<close>

fun rawText :: "seg \<Rightarrow> string" where
  "rawText (Lit c) = [c]"
| "rawText (Param name) = ''([^/]+)''"
| "rawText Wild = ''*''"

fun regexText :: "seg \<Rightarrow> string" where
  "regexText (Lit c) = [c]"
| "regexText (Param name) = ''([^/]+)''"
| "regexText Wild = ''.*''"

fun paramNames :: "seg list \<Rightarrow> string list" where
  "paramNames [] = []"
| "paramNames (Param name # ss) = name # paramNames ss"
| "paramNames (s # ss) = paramNames ss"

fun terms :: "nat \<Rightarrow> seg list \<Rightarrow> rx list" where
  "terms k [] = []"
| "terms k (Lit c # ss) = RChar c # terms k ss"
| "terms k (Param name # ss) =
     RGroup k (RAlt [RSeq [RPlus (RClass True ''/'')]]) # terms (Suc k) ss"
| "terms k (Wild # ss) = RStar RAny # terms k ss"

text \<open>
  A parser state between two parts of the pattern, and the captures after the pieces
  have been matched, the first parameter being group \<open>k\<close>.
\<close>

definition ready :: "pstate \<Rightarrow> bool" where
  "ready st = (pmode st = MNormal \<and> failure st = None \<and> \<not> opened st)"

fun capsAfter :: "nat \<Rightarrow> seg list \<Rightarrow> string list \<Rightarrow> caps \<Rightarrow> caps" where
  "capsAfter k (Param name # ss) (p # ps) caps = capsAfter (Suc k) ss ps (caps[k := Some p])"
| "capsAfter k (s # ss) (p # ps) caps = capsAfter k ss ps caps"
| "capsAfter k ss ps caps = caps"

subsection \<open>Values, responses and the request context\<close>

text \<open>
  The data a handler may return and \<^verbatim>\<open>JSON.stringify\<close> on it. A number is given by
  the text that \<^verbatim>\<open>JSON.stringify\<close> prints for it; the pairs of an object are its
  properties in enumeration order.
\<close>

datatype jsdata =
    JNull
  | JBool bool
  | JNum string
  | JStr string
  | JArr "jsdata list"
  | JObj "(string \<times> jsdata) list"

definition hexChar :: "nat \<Rightarrow> char" where
  "hexChar d = ''0123456789abcdef'' ! d"

text \<open>The escapes of \<^verbatim>\<open>JSON.stringify\<close> inside a string.\<close>

definition quoteChar :: "char \<Rightarrow> string" where
  "quoteChar c =
     (if c = CHR 0x22 then [CHR 0x5C, CHR 0x22]
      else if c = CHR 0x5C then [CHR 0x5C, CHR 0x5C]
      else if c = CHR 0x08 then [CHR 0x5C, CHR ''b'']
      else if c = CHR 0x0C then [CHR 0x5C, CHR ''f'']
      else if c = CHR 0x0A then [CHR 0x5C, CHR ''n'']
      else if c = CHR 0x0D then [CHR 0x5C, CHR ''r'']
      else if c = CHR 0x09 then [CHR 0x5C, CHR ''t'']
      else if (of_char c :: nat) < 32 then
        [CHR 0x5C, CHR ''u'', CHR ''0'', CHR ''0'',
         hexChar ((of_char c :: nat) div 16), hexChar ((of_char c :: nat) mod 16)]
      else [c])"

definition quoteJSONString :: "string \<Rightarrow> string" where
  "quoteJSONString s = CHR 0x22 # concat (map quoteChar s) @ [CHR 0x22]"

fun joinComma :: "string list \<Rightarrow> string" where
  "joinComma [] = []"
| "joinComma [x] = x"
| "joinComma (x # y # ys) = x @ '','' @ joinComma (y # ys)"

fun JSON_stringify :: "jsdata \<Rightarrow> string"
  and stringifyElements :: "jsdata list \<Rightarrow> string list"
  and stringifyProperties :: "(string \<times> jsdata) list \<Rightarrow> string list"
where
  "JSON_stringify JNull = ''null''"
| "JSON_stringify (JBool b) = (if b then ''true'' else ''false'')"
| "JSON_stringify (JNum s) = s"
| "JSON_stringify (JStr s) = quoteJSONString s"
| "JSON_stringify (JArr xs) = ''['' @ joinComma (stringifyElements xs) @ '']''"
| "JSON_stringify (JObj kvs) = ''{'' @ joinComma (stringifyProperties kvs) @ ''}''"
| "stringifyElements [] = []"
| "stringifyElements (x # xs) = JSON_stringify x # stringifyElements xs"
| "stringifyProperties [] = []"
| "stringifyProperties ((k, v) # kvs) =
     (quoteJSONString k @ '':'' @ JSON_stringify v) # stringifyProperties kvs"

text \<open>
  What is thrown: an \<^verbatim>\<open>Error\<close> of the program with its message and stack, any other
  value, or an \<^verbatim>\<open>Error\<close> that the host raises. The host raises a \<^verbatim>\<open>SyntaxError\<close> for
  source text that is no regular expression, a \<^verbatim>\<open>RangeError\<close> for a response status
  outside 200 to 599, and a \<^verbatim>\<open>TypeError\<close> for a body together with a status that
  allows none. Message and stack of these are texts of the host, see \<open>host\<close> below.
\<close>

datatype host_error = RegExpSyntax | StatusRange nat | NullBodyStatus nat

datatype thrown = JsError string "string option" | JsThrown jsdata | HostError host_error

text \<open>
  A value as \<^verbatim>\<open>JSON.stringify\<close> sees it: \<open>Plain d\<close> is printed as the data \<open>d\<close>; for
  \<open>Opaque\<close> (a function, a symbol) the result is \<^verbatim>\<open>undefined\<close>; for
  \<open>Unserializable e\<close> (a \<^verbatim>\<open>BigInt\<close>, a cyclic object, a \<^verbatim>\<open>toJSON\<close> that throws)
  \<^verbatim>\<open>JSON.stringify\<close> throws \<open>e\<close>.
\<close>

datatype jsvalue = Plain jsdata | Opaque | Unserializable thrown

fun stringify :: "jsvalue \<Rightarrow> thrown + string option" where
  "stringify (Plain d) = Inr (Some (JSON_stringify d))"
| "stringify Opaque = Inr None"
| "stringify (Unserializable e) = Inl e"

text \<open>
  A \<^verbatim>\<open>Response\<close>: the status, the headers handed over (names in lower case, as a
  \<^verbatim>\<open>Headers\<close> object keeps them) and the body text, empty when there is no body.
\<close>

record response =
  resp_status :: nat
  resp_headers :: "string \<rightharpoonup> string"
  resp_body :: string

text \<open>
  \<^verbatim>\<open>new Response(body, {status, headers})\<close>. The constructor refuses a status outside
  200 to 599, and a body together with one of the statuses 204, 205 and 304.
\<close>

definition nullBodyStatus :: "nat \<Rightarrow> bool" where
  "nullBodyStatus s = (s = 204 \<or> s = 205 \<or> s = 304)"

definition newResponse :: "string option \<Rightarrow> nat \<Rightarrow> (string \<rightharpoonup> string) \<Rightarrow> thrown + response" where
  "newResponse body st hs =
     (if st < 200 \<or> 599 < st then Inl (HostError (StatusRange st))
      else if body \<noteq> None \<and> nullBodyStatus st then Inl (HostError (NullBodyStatus st))
      else Inr \<lparr>resp_status = st, resp_headers = hs,
                resp_body = (case body of None \<Rightarrow> [] | Some b \<Rightarrow> b)\<rparr>)"

text \<open>
  The \<^verbatim>\<open>Context\<close> of one request: method and path of the request, the route parameters,
  the state bag, and the pending status (\<^verbatim>\<open>_status\<close>, initially 200) and pending headers
  (\<^verbatim>\<open>_headers\<close>) of the response under construction.
\<close>

record ctx =
  ctx_method :: string
  ctx_pathname :: string
  ctx_params :: params
  ctx_state :: "string \<rightharpoonup> jsdata"
  ctx_status :: nat
  ctx_headers :: "string \<rightharpoonup> string"

record request =
  req_method :: string
  req_pathname :: string

definition newContext :: "request \<Rightarrow> ctx" where
  "newContext req =
     \<lparr>ctx_method = req_method req, ctx_pathname = req_pathname req, ctx_params = Map.empty,
      ctx_state = Map.empty, ctx_status = 200, ctx_headers = Map.empty\<rparr>"

text \<open>\<^verbatim>\<open>Context.status(code)\<close>: the code is stored as it is.\<close>

definition status :: "ctx \<Rightarrow> nat \<Rightarrow> ctx" where
  "status c code = c\<lparr>ctx_status := code\<rparr>"

text \<open>
  \<^verbatim>\<open>Context.json(data, init?)\<close>: \<^verbatim>\<open>JSON.stringify(data)\<close> first, then the constructor
  of \<^verbatim>\<open>Response\<close> with the pending status and the pending headers plus the content
  type. The properties of \<open>init\<close>, when given, replace status and headers. What
  \<^verbatim>\<open>JSON.stringify\<close> or the constructor throws leaves \<^verbatim>\<open>json\<close>.
\<close>

record response_init =
  init_status :: "nat option"
  init_headers :: "(string \<rightharpoonup> string) option"

definition json :: "ctx \<Rightarrow> jsvalue \<Rightarrow> response_init option \<Rightarrow> thrown + response" where
  "json c data init =
     (case stringify data of
        Inl e \<Rightarrow> Inl e
      | Inr body \<Rightarrow>
          (let hs = (ctx_headers c)(''content-type'' \<mapsto> ''application/json'') in
           newResponse body
             (case init of None \<Rightarrow> ctx_status c
              | Some i \<Rightarrow> (case init_status i of None \<Rightarrow> ctx_status c | Some st \<Rightarrow> st))
             (case init of None \<Rightarrow> hs
              | Some i \<Rightarrow> (case init_headers i of None \<Rightarrow> hs | Some h \<Rightarrow> h))))"

subsection \<open>Handlers, middleware and routes\<close>

text \<open>
  What a handler or a middleware returns: \<^verbatim>\<open>undefined\<close>, a \<^verbatim>\<open>Response\<close>, or another
  value.
\<close>

datatype jsresult = Undefined | Resp response | Data jsvalue

text \<open>
  A route handler runs on the context, may change it, and returns or throws. A
  middleware also gets the continuation \<^verbatim>\<open>next\<close>: it is a program that returns, throws,
  changes or reads the context, or awaits \<^verbatim>\<open>next()\<close> and goes on with what the
  promise gave (it resolved, or it rejected with what was thrown). Returning the promise
  of \<^verbatim>\<open>next()\<close> is awaiting it and returning \<^verbatim>\<open>undefined\<close>. A middleware that calls
  \<^verbatim>\<open>next()\<close> and goes on without waiting for it is not among these programs, nor is a
  handler or a middleware that never returns.
\<close>

type_synonym handler = "ctx \<Rightarrow> (thrown + jsresult) \<times> ctx"

datatype settled = Resolved | Rejected thrown

datatype middleware =
    Return jsresult
  | Throw thrown
  | AwaitNext "settled \<Rightarrow> middleware"
  | Mutate "ctx \<Rightarrow> ctx" middleware
  | Inspect "ctx \<Rightarrow> middleware"

record route =
  method' :: string
  path :: string
  handler :: handler
  middlewares :: "middleware list option"

text \<open>
  \<^verbatim>\<open>Router.findRoute\<close>, on the array of routes. The loop does not depend on how a
  pattern is matched, so \<open>findRouteBy\<close> takes \<^verbatim>\<open>this.matchPath\<close> as the parameter
  \<open>mp\<close>: given pattern and path it returns the parameters, returns \<^verbatim>\<open>null\<close>, or
  throws. \<open>findRoute\<close> is the loop with \<open>matchPath\<close> as modelled above.
\<close>

type_synonym matcher = "string \<Rightarrow> string \<Rightarrow> rx_error + params option"

fun findRouteBy :: "matcher \<Rightarrow> route list \<Rightarrow> string \<Rightarrow> string \<Rightarrow> rx_error + (route \<times> params) option" where
  "findRouteBy mp [] m p = Inr None"
| "findRouteBy mp (r # rs) m p =
     (if method' r \<noteq> m then findRouteBy mp rs m p
      else (case mp (path r) p of
              Inl e \<Rightarrow> Inl e
            | Inr None \<Rightarrow> findRouteBy mp rs m p
            | Inr (Some ps) \<Rightarrow> Inr (Some (r, ps))))"

definition findRoute :: "route list \<Rightarrow> string \<Rightarrow> string \<Rightarrow> rx_error + (route \<times> params) option" where
  "findRoute = findRouteBy matchPath"


subsection \<open>The middleware chain\<close>

text \<open>
  The variables of one call of \<^verbatim>\<open>executeMiddlewareChain\<close>: the index into the
  middleware array, the response recorded so far, and the context, which every
  middleware and the handler share. \<open>trace\<close> is not in the source: it records, in
  order, which middleware (by its index in the array) and when the handler was invoked.
\<close>

datatype event = Enter nat | RunHandler

record chain =
  index :: nat
  response :: "response option"
  the_context :: ctx
  trace :: "event list"

text \<open>
  \<^verbatim>\<open>await middleware(context, next)\<close>, given what \<^verbatim>\<open>next()\<close> does. \<open>None\<close> is \<open>next\<close>
  out of fuel, see below.
\<close>

primrec callMiddleware ::
  "(chain \<Rightarrow> (settled \<times> chain) option) \<Rightarrow> middleware \<Rightarrow> chain
     \<Rightarrow> ((thrown + jsresult) \<times> chain) option" where
  "callMiddleware nx (Return v) st = Some (Inr v, st)"
| "callMiddleware nx (Throw e) st = Some (Inl e, st)"
| "callMiddleware nx (AwaitNext k) st =
     (case nx st of None \<Rightarrow> None | Some (a, st') \<Rightarrow> callMiddleware nx (k a) st')"
| "callMiddleware nx (Mutate f p) st = callMiddleware nx p (st\<lparr>the_context := f (the_context st)\<rparr>)"
| "callMiddleware nx (Inspect g) st = callMiddleware nx (g (the_context st)) st"

text \<open>
  The closure \<^verbatim>\<open>next\<close>. It calls itself through the middleware it invokes, so the
  definition is by recursion on a bound of the nesting depth: each nested call finds a
  larger index, and \<open>Suc (length middlewares)\<close> is always enough
  (\<open>nextFn_enough_fuel\<close>). The array holds middleware only, so the test
  \<^verbatim>\<open>if (middleware)\<close> succeeds.
\<close>

fun nextFn :: "nat \<Rightarrow> middleware list \<Rightarrow> handler \<Rightarrow> chain \<Rightarrow> (settled \<times> chain) option" where
  "nextFn 0 mws h st = None"
| "nextFn (Suc fuel) mws h st =
     (if index st < length mws then
        (case callMiddleware (nextFn fuel mws h) (mws ! index st)
                (st\<lparr>index := Suc (index st), trace := trace st @ [Enter (index st)]\<rparr>) of
           None \<Rightarrow> None
         | Some (Inl e, st') \<Rightarrow> Some (Rejected e, st')
         | Some (Inr result, st') \<Rightarrow>
             Some (Resolved,
                   (case result of Resp r \<Rightarrow> st'\<lparr>response := Some r\<rparr> | _ \<Rightarrow> st')))
      else
        (case h (the_context st) of
           (Inl e, c) \<Rightarrow> Some (Rejected e, st\<lparr>the_context := c, trace := trace st @ [RunHandler]\<rparr>)
         | (Inr result, c) \<Rightarrow>
             (let st' = st\<lparr>the_context := c, trace := trace st @ [RunHandler]\<rparr> in
              case result of
                Resp r \<Rightarrow> Some (Resolved, st'\<lparr>response := Some r\<rparr>)
              | Undefined \<Rightarrow> Some (Resolved, st')
              | Data d \<Rightarrow>
                  (case json c d None of
                     Inl e \<Rightarrow> Some (Rejected e, st')
                   | Inr r \<Rightarrow> Some (Resolved, st'\<lparr>response := Some r\<rparr>)))))"

definition noResponseGenerated :: response where
  "noResponseGenerated =
     \<lparr>resp_status = 500, resp_headers = Map.empty, resp_body = ''No response generated''\<rparr>"

text \<open>
  \<^verbatim>\<open>executeMiddlewareChain\<close>: the response or the exception that leaves the chain,
  with the context as the chain left it and the trace.
\<close>

definition executeMiddlewareChain ::
  "ctx \<Rightarrow> middleware list \<Rightarrow> handler \<Rightarrow> ((thrown + response) \<times> ctx \<times> event list) option" where
  "executeMiddlewareChain c mws h =
     (case nextFn (Suc (length mws)) mws h
             \<lparr>index = 0, response = None, the_context = c, trace = []\<rparr> of
        None \<Rightarrow> None
      | Some (Rejected e, st) \<Rightarrow> Some (Inl e, the_context st, trace st)
      | Some (Resolved, st) \<Rightarrow>
          Some (Inr (case response st of Some r \<Rightarrow> r | None \<Rightarrow> noResponseGenerated),
                the_context st, trace st))"

subsection \<open>The application dispatcher\<close>

type_synonym error_handler = "thrown \<Rightarrow> ctx \<Rightarrow> (thrown + response) \<times> ctx"

record nino_app =
  appRoutes :: "route list"
  globalMiddlewares :: "middleware list"
  errorHandler :: "error_handler option"
  development :: bool

datatype console = ErrorInErrorHandler thrown | UnhandledError thrown

text \<open>
  What the host contributes to an \<^verbatim>\<open>Error\<close> that it raises: the message and the stack.
  The texts differ between engines, so they are parameters.
\<close>

record host =
  hostMessage :: "host_error \<Rightarrow> string"
  hostStack :: "host_error \<Rightarrow> string option"

text \<open>\<^verbatim>\<open>NinoApp.handleNotFound\<close>\<close>

definition handleNotFound :: "ctx \<Rightarrow> thrown + response" where
  "handleNotFound c =
     json (status c 404)
       (Plain (JObj [(''error'', JStr ''Not Found''),
                     (''message'',
                      JStr (''Route '' @ ctx_method c @ '' '' @ ctx_pathname c @ '' not found''))]))
       None"

fun instanceofError :: "thrown \<Rightarrow> bool" where
  "instanceofError (JsError msg stk) = True"
| "instanceofError (HostError k) = True"
| "instanceofError (JsThrown v) = False"

text \<open>\<^verbatim>\<open>error.message\<close> and \<^verbatim>\<open>error.stack\<close> of an \<^verbatim>\<open>Error\<close>.\<close>

fun messageOf :: "host \<Rightarrow> thrown \<Rightarrow> string" where
  "messageOf hst (JsError msg stk) = msg"
| "messageOf hst (HostError k) = hostMessage hst k"
| "messageOf hst (JsThrown v) = []"

fun stackOf :: "host \<Rightarrow> thrown \<Rightarrow> string option" where
  "stackOf hst (JsError msg stk) = stk"
| "stackOf hst (HostError k) = hostStack hst k"
| "stackOf hst (JsThrown v) = None"

text \<open>
  The object literal of the default error response. A property whose value is
  \<^verbatim>\<open>undefined\<close> is left out by \<^verbatim>\<open>JSON.stringify\<close>.
\<close>

definition errorBody :: "host \<Rightarrow> bool \<Rightarrow> thrown \<Rightarrow> jsdata" where
  "errorBody hst dev error =
     JObj ([(''error'', JStr ''Internal Server Error''),
            (''message'',
             JStr (if instanceofError error then messageOf hst error
                   else ''Unknown error occurred''))]
           @ (if dev \<and> instanceofError error then
                (case stackOf hst error of Some stk \<Rightarrow> [(''stack'', JStr stk)] | None \<Rightarrow> [])
              else []))"

text \<open>
  \<^verbatim>\<open>NinoApp.handleError\<close>: the response, or what \<^verbatim>\<open>handleError\<close> itself throws, and
  what was written to the console. An error handler that throws may have changed the
  context before.
\<close>

definition handleError ::
  "host \<Rightarrow> nino_app \<Rightarrow> thrown \<Rightarrow> ctx \<Rightarrow> (thrown + response) \<times> console list" where
  "handleError hst app error c =
     (case (case errorHandler app of
              Some eh \<Rightarrow> if instanceofError error then Some (eh error c) else None
            | None \<Rightarrow> None) of
        Some (Inr result, c') \<Rightarrow> (Inr result, [])
      | Some (Inl handlerError, c') \<Rightarrow>
          (json (status c' 500) (Plain (errorBody hst (development app) error)) None,
           [ErrorInErrorHandler handlerError, UnhandledError error])
      | None \<Rightarrow>
          (json (status c 500) (Plain (errorBody hst (development app) error)) None,
           [UnhandledError error]))"

text \<open>
  \<^verbatim>\<open>NinoApp.handleRequest\<close>: the response (or what \<^verbatim>\<open>handleRequest\<close> itself throws),
  the console output and the trace of the chain. The \<^verbatim>\<open>try\<close> block covers the lookup
  and \<^verbatim>\<open>handleNotFound\<close>, so what they throw leads to \<^verbatim>\<open>handleError\<close>. The chain always
  gives a \<^verbatim>\<open>Response\<close> when it returns, so the second \<^verbatim>\<open>response || ...\<close> of the source
  passes it on. As with \<open>findRouteBy\<close>, \<open>handleRequestBy\<close> takes the matching of a
  pattern as a parameter; when that reports a pattern outside the modelled fragment there
  is no answer (\<open>None\<close>). \<open>handleRequest\<close> is the dispatcher with \<open>matchPath\<close> as
  modelled above.
\<close>

definition handleRequestBy ::
  "matcher \<Rightarrow> host \<Rightarrow> nino_app \<Rightarrow> request
     \<Rightarrow> ((thrown + response) \<times> console list \<times> event list) option" where
  "handleRequestBy mp hst app req =
     (let c = newContext req in
      case findRouteBy mp (appRoutes app) (ctx_method c) (ctx_pathname c) of
        Inl Unmodelled \<Rightarrow> None
      | Inl SyntaxError \<Rightarrow>
          (case handleError hst app (HostError RegExpSyntax) c of
             (res, out) \<Rightarrow> Some (res, out, []))
      | Inr None \<Rightarrow>
          (case handleNotFound c of
             Inr resp \<Rightarrow> Some (Inr resp, [], [])
           | Inl error \<Rightarrow>
               (case handleError hst app error (status c 404) of
                  (res, out) \<Rightarrow> Some (res, out, [])))
      | Inr (Some (r, ps)) \<Rightarrow>
          (case executeMiddlewareChain
                  (c\<lparr>ctx_params := ctx_params c ++ ps\<rparr>)
                  (globalMiddlewares app @ (case middlewares r of None \<Rightarrow> [] | Some ms \<Rightarrow> ms))
                  (handler r) of
             None \<Rightarrow> None
           | Some (Inr resp, c', tr) \<Rightarrow> Some (Inr resp, [], tr)
           | Some (Inl error, c', tr) \<Rightarrow>
               (case handleError hst app error c' of (res, out) \<Rightarrow> Some (res, out, tr))))"

definition handleRequest ::
  "host \<Rightarrow> nino_app \<Rightarrow> request \<Rightarrow> ((thrown + response) \<times> console list \<times> event list) option" where
  "handleRequest = handleRequestBy matchPath"


subsection \<open>Router: registration, with the middleware arrays in a store\<close>

text \<open>
  \<^verbatim>\<open>Router.use\<close> pushes onto the array \<^verbatim>\<open>this.middlewares\<close> in place, and a route object
  holds a reference to an array, so whether a later \<^verbatim>\<open>use\<close> reaches a registered route
  depends on which arrays are shared. Arrays of middleware therefore live in a store and
  are named by references.
\<close>

type_synonym ref = nat

record store =
  cells :: "ref \<Rightarrow> middleware list"
  fresh :: ref

definition alloc :: "middleware list \<Rightarrow> store \<Rightarrow> ref \<times> store" where
  "alloc xs s = (fresh s, s\<lparr>cells := (cells s)(fresh s := xs), fresh := Suc (fresh s)\<rparr>)"

definition push :: "ref \<Rightarrow> middleware \<Rightarrow> store \<Rightarrow> store" where
  "push a x s = s\<lparr>cells := (cells s)(a := cells s a @ [x])\<rparr>"

record route_obj =
  ro_method :: string
  ro_path :: string
  ro_handler :: handler
  ro_middlewares :: ref

record router =
  routes :: "route_obj list"
  router_middlewares :: ref
  prefix :: string

record router_config =
  cfg_prefix :: "string option"
  cfg_middlewares :: "ref option"

text \<open>
  The constructor: \<^verbatim>\<open>config.prefix || ""\<close> and \<^verbatim>\<open>config.middlewares || []\<close>. The
  array of the configuration is taken over, not copied.
\<close>

definition newRouter :: "router_config \<Rightarrow> store \<Rightarrow> router \<times> store" where
  "newRouter config s =
     (let p = (case cfg_prefix config of None \<Rightarrow> [] | Some x \<Rightarrow> x) in
      case cfg_middlewares config of
        Some a \<Rightarrow> (\<lparr>routes = [], router_middlewares = a, prefix = p\<rparr>, s)
      | None \<Rightarrow>
          (case alloc [] s of (a, s') \<Rightarrow> (\<lparr>routes = [], router_middlewares = a, prefix = p\<rparr>, s')))"

text \<open>\<^verbatim>\<open>Router.use\<close>\<close>

definition use :: "middleware \<Rightarrow> router \<times> store \<Rightarrow> router \<times> store" where
  "use m = (\<lambda>(r, s). (r, push (router_middlewares r) m s))"

text \<open>
  \<^verbatim>\<open>Router.addRoute\<close>: \<^verbatim>\<open>[...this.middlewares, ...middlewares]\<close> is a new array. The
  argument \<open>mws\<close> is only read, so it is passed by value.
\<close>

definition addRoute ::
  "string \<Rightarrow> string \<Rightarrow> handler \<Rightarrow> middleware list \<Rightarrow> router \<times> store \<Rightarrow> router \<times> store" where
  "addRoute meth p h mws = (\<lambda>(r, s).
     (let fullPath = prefix r @ p in
      case alloc (cells s (router_middlewares r) @ mws) s of
        (a, s') \<Rightarrow>
          (r\<lparr>routes := routes r @
                [\<lparr>ro_method = meth, ro_path = fullPath, ro_handler = h, ro_middlewares = a\<rparr>]\<rparr>,
           s')))"

text \<open>\<^verbatim>\<open>Router.get\<close>; the methods for the other verbs differ in the verb only.\<close>

definition get :: "string \<Rightarrow> handler \<Rightarrow> middleware list \<Rightarrow> router \<times> store \<Rightarrow> router \<times> store" where
  "get p h mws = addRoute ''GET'' p h mws"

text \<open>
  \<^verbatim>\<open>Router.getRoutes\<close>, each route with the present content of its middleware array:
  the routes as \<^verbatim>\<open>findRoute\<close> and the dispatcher read them.
\<close>

definition getRoutes :: "router \<times> store \<Rightarrow> route list" where
  "getRoutes = (\<lambda>(r, s).
     map (\<lambda>ro. \<lparr>method' = ro_method ro, path = ro_path ro, handler = ro_handler ro,
                middlewares = Some (cells s (ro_middlewares ro))\<rparr>) (routes r))"

text \<open>A router after its constructor and a sequence of registrations.\<close>

datatype registration = Use middleware | AddRoute string string handler "middleware list"

fun register :: "registration \<Rightarrow> router \<times> store \<Rightarrow> router \<times> store" where
  "register (Use m) rs = use m rs"
| "register (AddRoute meth p h mws) rs = addRoute meth p h mws rs"

definition registered :: "router_config \<Rightarrow> store \<Rightarrow> registration list \<Rightarrow> router \<times> store" where
  "registered config s regs = foldl (\<lambda>rs reg. register reg rs) (newRouter config s) regs"

text \<open>
  What the registrations keep true: every array in use is allocated, and no route shares
  its array with the router. \<open>configAllocated\<close> says that the array of the
  configuration, when there is one, exists before the router does.
\<close>

definition routerInv :: "router \<times> store \<Rightarrow> bool" where
  "routerInv = (\<lambda>(r, s). router_middlewares r < fresh s
      \<and> (\<forall>ro\<in>set (routes r).
            ro_middlewares ro < fresh s \<and> ro_middlewares ro \<noteq> router_middlewares r))"

definition configAllocated :: "router_config \<Rightarrow> store \<Rightarrow> bool" where
  "configAllocated config s =
     (case cfg_middlewares config of None \<Rightarrow> True | Some a \<Rightarrow> a < fresh s)"

subsection \<open>Shapes of middleware\<close>

text \<open>
  \<open>nextCall\<close> is \<open>nextFn\<close> with the fuel that the state needs; it satisfies the
  equation of the closure \<^verbatim>\<open>next\<close> in the source (\<open>nextCall_unfold\<close>).
\<close>

definition nextCall :: "middleware list \<Rightarrow> handler \<Rightarrow> chain \<Rightarrow> (settled \<times> chain) option" where
  "nextCall mws h st = nextFn (Suc (length mws - index st)) mws h st"

fun isResponse :: "jsresult \<Rightarrow> bool" where
  "isResponse (Resp r) = True"
| "isResponse v = False"

text \<open>
  A middleware run by itself on a context, up to its return or throw; \<open>None\<close> when it
  awaits \<^verbatim>\<open>next()\<close> on the way.
\<close>

primrec runAlone :: "middleware \<Rightarrow> ctx \<Rightarrow> ((thrown + jsresult) \<times> ctx) option" where
  "runAlone (Return v) c = Some (Inr v, c)"
| "runAlone (Throw e) c = Some (Inl e, c)"
| "runAlone (AwaitNext k) c = None"
| "runAlone (Mutate f p) c = runAlone p (f c)"
| "runAlone (Inspect g) c = runAlone (g c) c"

text \<open>The context at the moment a middleware first awaits \<^verbatim>\<open>next()\<close>.\<close>

primrec ctxAtNext :: "middleware \<Rightarrow> ctx \<Rightarrow> ctx" where
  "ctxAtNext (Return v) c = c"
| "ctxAtNext (Throw e) c = c"
| "ctxAtNext (AwaitNext k) c = c"
| "ctxAtNext (Mutate f p) c = ctxAtNext p (f c)"
| "ctxAtNext (Inspect g) c = ctxAtNext (g c) c"

text \<open>\<open>nextFree\<close>: the middleware never awaits \<^verbatim>\<open>next()\<close>.\<close>

primrec nextFree :: "middleware \<Rightarrow> bool" where
  "nextFree (Return v) = True"
| "nextFree (Throw e) = True"
| "nextFree (AwaitNext k) = False"
| "nextFree (Mutate f p) = nextFree p"
| "nextFree (Inspect g) = (\<forall>c. nextFree (g c))"

text \<open>
  \<open>awaitsOnce\<close>: the middleware awaits \<^verbatim>\<open>next()\<close> exactly once, whatever its context
  and whatever \<^verbatim>\<open>next()\<close> gave.
\<close>

primrec awaitsOnce :: "middleware \<Rightarrow> bool" where
  "awaitsOnce (Return v) = False"
| "awaitsOnce (Throw e) = False"
| "awaitsOnce (AwaitNext k) = (\<forall>a. nextFree (k a))"
| "awaitsOnce (Mutate f p) = awaitsOnce p"
| "awaitsOnce (Inspect g) = (\<forall>c. awaitsOnce (g c))"

text \<open>
  \<open>quiet\<close>: the middleware returns without awaiting \<^verbatim>\<open>next()\<close>, without throwing and
  without a \<^verbatim>\<open>Response\<close>. \<open>transparent\<close>: it awaits \<^verbatim>\<open>next()\<close> once and, when that
  resolved, is quiet.
\<close>

primrec quiet :: "middleware \<Rightarrow> bool" where
  "quiet (Return v) = (\<not> isResponse v)"
| "quiet (Throw e) = False"
| "quiet (AwaitNext k) = False"
| "quiet (Mutate f p) = quiet p"
| "quiet (Inspect g) = (\<forall>c. quiet (g c))"

primrec transparent :: "middleware \<Rightarrow> bool" where
  "transparent (Return v) = False"
| "transparent (Throw e) = False"
| "transparent (AwaitNext k) = quiet (k Resolved)"
| "transparent (Mutate f p) = transparent p"
| "transparent (Inspect g) = (\<forall>c. transparent (g c))"

text \<open>\<open>noResponse\<close>: the middleware never returns a \<^verbatim>\<open>Response\<close>.\<close>

primrec noResponse :: "middleware \<Rightarrow> bool" where
  "noResponse (Return v) = (\<not> isResponse v)"
| "noResponse (Throw e) = True"
| "noResponse (AwaitNext k) = (\<forall>a. noResponse (k a))"
| "noResponse (Mutate f p) = noResponse p"
| "noResponse (Inspect g) = (\<forall>c. noResponse (g c))"

text \<open>
  \<open>peaceful\<close>: as long as every \<^verbatim>\<open>next()\<close> it awaits resolves, the middleware returns
  without throwing and without a \<^verbatim>\<open>Response\<close>; it may await \<^verbatim>\<open>next()\<close> any number of
  times.
\<close>

primrec peaceful :: "middleware \<Rightarrow> bool" where
  "peaceful (Return v) = (\<not> isResponse v)"
| "peaceful (Throw e) = False"
| "peaceful (AwaitNext k) = peaceful (k Resolved)"
| "peaceful (Mutate f p) = peaceful p"
| "peaceful (Inspect g) = (\<forall>c. peaceful (g c))"

text \<open>
  \<open>raises e\<close>: the middleware throws \<open>e\<close> without awaiting \<^verbatim>\<open>next()\<close>.
  \<open>passing\<close>: it awaits \<^verbatim>\<open>next()\<close> once and, when that rejected, throws what it was
  rejected with, as an \<^verbatim>\<open>await next()\<close> outside any \<^verbatim>\<open>try\<close> does.
\<close>

primrec raises :: "thrown \<Rightarrow> middleware \<Rightarrow> bool" where
  "raises e (Return v) = False"
| "raises e (Throw x) = (x = e)"
| "raises e (AwaitNext k) = False"
| "raises e (Mutate f p) = raises e p"
| "raises e (Inspect g) = (\<forall>c. raises e (g c))"

primrec passing :: "middleware \<Rightarrow> bool" where
  "passing (Return v) = False"
| "passing (Throw e) = False"
| "passing (AwaitNext k) = (\<forall>e. raises e (k (Rejected e)))"
| "passing (Mutate f p) = passing p"
| "passing (Inspect g) = (\<forall>c. passing (g c))"

subsection \<open>Example programs\<close>

text \<open>
  Programs for the concrete runs below. \<open>textResponse s\<close> is \<^verbatim>\<open>new Response(s)\<close>.
  \<open>marking n\<close> appends \<open>n\<close> to the entry \<^verbatim>\<open>order\<close> of the state bag and awaits
  \<^verbatim>\<open>next()\<close>; \<open>orderHandler\<close> returns that entry. \<open>catching\<close> is the shape of the
  repository's \<^verbatim>\<open>errorHandler()\<close> middleware with its defaults: it awaits
  \<^verbatim>\<open>next()\<close> in a \<^verbatim>\<open>try\<close> and, in the \<^verbatim>\<open>catch\<close>, builds a response with status 500
  that it does not return.
\<close>

fun exampleMessage :: "host_error \<Rightarrow> string" where
  "exampleMessage RegExpSyntax = ''Invalid regular expression''"
| "exampleMessage (StatusRange s) = ''The status provided is outside the range [200, 599]''"
| "exampleMessage (NullBodyStatus s) = ''Response with null body status cannot have body''"

definition exampleHost :: host where
  "exampleHost = \<lparr>hostMessage = exampleMessage, hostStack = (\<lambda>k. None)\<rparr>"

definition exampleContext :: ctx where
  "exampleContext = newContext \<lparr>req_method = ''GET'', req_pathname = ''/''\<rparr>"

definition textResponse :: "string \<Rightarrow> response" where
  "textResponse s = \<lparr>resp_status = 200, resp_headers = Map.empty, resp_body = s\<rparr>"

definition marking :: "string \<Rightarrow> middleware" where
  "marking n =
     Mutate (\<lambda>c. c\<lparr>ctx_state := (ctx_state c)(''order'' \<mapsto>
                JStr ((case ctx_state c ''order'' of Some (JStr s) \<Rightarrow> s | _ \<Rightarrow> []) @ n))\<rparr>)
       (AwaitNext (\<lambda>a. case a of Resolved \<Rightarrow> Return Undefined | Rejected e \<Rightarrow> Throw e))"

definition orderHandler :: handler where
  "orderHandler =
     (\<lambda>c. (Inr (Data (Plain (case ctx_state c ''order'' of Some d \<Rightarrow> d | None \<Rightarrow> JNull))), c))"

definition catching :: middleware where
  "catching =
     AwaitNext (\<lambda>a. case a of
        Resolved \<Rightarrow> Return Undefined
      | Rejected e \<Rightarrow> Mutate (\<lambda>c. status c 500) (Return Undefined))"

definition throwing :: "string \<Rightarrow> handler" where
  "throwing msg = (\<lambda>c. (Inl (JsError msg None), c))"


section \<open>Properties\<close>

subsection \<open>Lookup\<close>


lemma matchPath_eval:
  assumes "replaceParams pat = (out, ks)"
    and "newRegExp (''^'' @ replaceStars out @ ''$'') = Inr re"
  shows "matchPath pat p =
     (case stringMatch p re of
        None \<Rightarrow> Inr None
      | Some m \<Rightarrow> Inr (Some (foldl (\<lambda>ps (key, index). setParam ps key (orEmpty m (index + 1)))
                                Map.empty (zip ks [0..<length ks]))))"
  using assms by (simp add: matchPath_def pathToRegex_def split: option.splits)

lemma findRouteBy_skip:
  "\<forall>q\<in>set pre. method' q = m \<longrightarrow> mp (path q) p = Inr None
   \<Longrightarrow> findRouteBy mp (pre @ rest) m p = findRouteBy mp rest m p"
  by (induction pre) auto

text \<open>
  Whatever the scan gives, it comes from one route: the first of the request's method
  for which the matching does not return \<^verbatim>\<open>null\<close>.
\<close>

lemma findRouteBy_decomp:
  "findRouteBy mp rs m p \<noteq> Inr None
   \<Longrightarrow> \<exists>pre r post. rs = pre @ r # post \<and> method' r = m \<and> mp (path r) p \<noteq> Inr None
        \<and> (\<forall>q\<in>set pre. method' q = m \<longrightarrow> mp (path q) p = Inr None)
        \<and> findRouteBy mp rs m p =
            (case mp (path r) p of Inl e \<Rightarrow> Inl e | Inr None \<Rightarrow> Inr None
             | Inr (Some ps) \<Rightarrow> Inr (Some (r, ps)))"
proof (induction rs)
  case Nil
  then show ?case by simp
next
  case (Cons a rs)
  show ?case
  proof (cases "method' a = m \<and> mp (path a) p \<noteq> Inr None")
    case True
    then have "a # rs = [] @ a # rs \<and> method' a = m \<and> mp (path a) p \<noteq> Inr None
        \<and> (\<forall>q\<in>set []. method' q = m \<longrightarrow> mp (path q) p = Inr None)
        \<and> findRouteBy mp (a # rs) m p =
            (case mp (path a) p of Inl e \<Rightarrow> Inl e | Inr None \<Rightarrow> Inr None
             | Inr (Some ps) \<Rightarrow> Inr (Some (a, ps)))"
      by (auto split: sum.splits option.splits)
    then show ?thesis by blast
  next
    case False
    then have eq: "findRouteBy mp (a # rs) m p = findRouteBy mp rs m p" by auto
    with Cons.prems have "findRouteBy mp rs m p \<noteq> Inr None" by simp
    from Cons.IH[OF this] obtain pre r post where
      d: "rs = pre @ r # post" "method' r = m" "mp (path r) p \<noteq> Inr None"
         "\<forall>q\<in>set pre. method' q = m \<longrightarrow> mp (path q) p = Inr None"
         "findRouteBy mp rs m p =
            (case mp (path r) p of Inl e \<Rightarrow> Inl e | Inr None \<Rightarrow> Inr None
             | Inr (Some ps) \<Rightarrow> Inr (Some (r, ps)))"
      by blast
    from d False eq have "a # rs = (a # pre) @ r # post \<and> method' r = m
        \<and> mp (path r) p \<noteq> Inr None
        \<and> (\<forall>q\<in>set (a # pre). method' q = m \<longrightarrow> mp (path q) p = Inr None)
        \<and> findRouteBy mp (a # rs) m p =
            (case mp (path r) p of Inl e \<Rightarrow> Inl e | Inr None \<Rightarrow> Inr None
             | Inr (Some ps) \<Rightarrow> Inr (Some (r, ps)))"
      by auto
    then show ?thesis by blast
  qed
qed

lemma findRouteBy_Some_decomp:
  assumes "findRouteBy mp rs m p = Inr (Some (r, ps))"
  shows "\<exists>pre post. rs = pre @ r # post \<and> method' r = m \<and> mp (path r) p = Inr (Some ps)
        \<and> (\<forall>q\<in>set pre. method' q = m \<longrightarrow> mp (path q) p = Inr None)"
proof -
  from assms have "findRouteBy mp rs m p \<noteq> Inr None" by simp
  from findRouteBy_decomp[OF this] obtain pre r' post where
    d: "rs = pre @ r' # post" "method' r' = m"
       "\<forall>q\<in>set pre. method' q = m \<longrightarrow> mp (path q) p = Inr None"
       "findRouteBy mp rs m p =
            (case mp (path r') p of Inl e \<Rightarrow> Inl e | Inr None \<Rightarrow> Inr None
             | Inr (Some ps) \<Rightarrow> Inr (Some (r', ps)))"
    by blast
  from d(4) assms have "r' = r \<and> mp (path r') p = Inr (Some ps)"
    by (auto split: sum.splits option.splits)
  with d show ?thesis by blast
qed

lemma findRouteBy_Inl_decomp:
  assumes "findRouteBy mp rs m p = Inl e"
  shows "\<exists>pre r post. rs = pre @ r # post \<and> method' r = m \<and> mp (path r) p = Inl e
        \<and> (\<forall>q\<in>set pre. method' q = m \<longrightarrow> mp (path q) p = Inr None)"
proof -
  from assms have "findRouteBy mp rs m p \<noteq> Inr None" by simp
  from findRouteBy_decomp[OF this] obtain pre r post where
    d: "rs = pre @ r # post" "method' r = m"
       "\<forall>q\<in>set pre. method' q = m \<longrightarrow> mp (path q) p = Inr None"
       "findRouteBy mp rs m p =
            (case mp (path r) p of Inl e \<Rightarrow> Inl e | Inr None \<Rightarrow> Inr None
             | Inr (Some ps) \<Rightarrow> Inr (Some (r, ps)))"
    by blast
  from d(4) assms have "mp (path r) p = Inl e"
    by (auto split: sum.splits option.splits)
  with d show ?thesis by blast
qed

lemma findRouteBy_None_iff:
  "findRouteBy mp rs m p = Inr None
   \<longleftrightarrow> (\<forall>q\<in>set rs. method' q = m \<longrightarrow> mp (path q) p = Inr None)"
  by (induction rs) (auto split: sum.splits option.splits)

text \<open>
  Claim C2, as amended. \<open>findRoute\<close> scans the routes in registration order and tests
  the routes of the request's method. It returns the first of them whose pattern matches
  the path, with the parameters of that match, when the matching of every such route
  before it returned \<^verbatim>\<open>null\<close>; it returns nothing exactly when the matching of every
  route of that method returns \<^verbatim>\<open>null\<close>; and it throws exactly when the scan reaches,
  before any match, a route of that method whose matching throws (a pattern that is no
  regular expression). So when \<open>A\<close> stands before \<open>B\<close>, both have the method and match,
  and every route of that method before \<open>A\<close> is tested without a match, the result is
  \<open>A\<close>, whatever \<open>B\<close> is. This holds for every way \<open>mp\<close> of matching a pattern, and so
  for \<^verbatim>\<open>matchPath\<close> on every pattern.
\<close>

theorem findRoute_first_match_wins:
  "(findRouteBy mp rs m p = Inr (Some (r, ps)) \<longleftrightarrow>
      (\<exists>pre post. rs = pre @ r # post \<and> method' r = m \<and> mp (path r) p = Inr (Some ps)
         \<and> (\<forall>q\<in>set pre. method' q = m \<longrightarrow> mp (path q) p = Inr None)))
   \<and> (findRouteBy mp rs m p = Inr None \<longleftrightarrow>
      (\<forall>q\<in>set rs. method' q = m \<longrightarrow> mp (path q) p = Inr None))
   \<and> (findRouteBy mp rs m p = Inl e \<longleftrightarrow>
      (\<exists>pre r post. rs = pre @ r # post \<and> method' r = m \<and> mp (path r) p = Inl e
         \<and> (\<forall>q\<in>set pre. method' q = m \<longrightarrow> mp (path q) p = Inr None)))
   \<and> (\<forall>pre A mid B post psA psB.
        rs = pre @ A # mid @ B # post \<and> method' A = m \<and> method' B = m
        \<and> mp (path A) p = Inr (Some psA) \<and> mp (path B) p = Inr (Some psB)
        \<and> (\<forall>q\<in>set pre. method' q = m \<longrightarrow> mp (path q) p = Inr None)
        \<longrightarrow> findRouteBy mp rs m p = Inr (Some (A, psA)))"
proof (intro conjI allI impI iffI)
  assume "findRouteBy mp rs m p = Inr (Some (r, ps))"
  then show "\<exists>pre post. rs = pre @ r # post \<and> method' r = m \<and> mp (path r) p = Inr (Some ps)
         \<and> (\<forall>q\<in>set pre. method' q = m \<longrightarrow> mp (path q) p = Inr None)"
    by (rule findRouteBy_Some_decomp)
next
  assume "\<exists>pre post. rs = pre @ r # post \<and> method' r = m \<and> mp (path r) p = Inr (Some ps)
         \<and> (\<forall>q\<in>set pre. method' q = m \<longrightarrow> mp (path q) p = Inr None)"
  then show "findRouteBy mp rs m p = Inr (Some (r, ps))"
    by (auto simp: findRouteBy_skip)
next
  assume "findRouteBy mp rs m p = Inr None"
  then show "\<forall>q\<in>set rs. method' q = m \<longrightarrow> mp (path q) p = Inr None"
    by (simp add: findRouteBy_None_iff)
next
  assume "\<forall>q\<in>set rs. method' q = m \<longrightarrow> mp (path q) p = Inr None"
  then show "findRouteBy mp rs m p = Inr None"
    by (simp add: findRouteBy_None_iff)
next
  assume "findRouteBy mp rs m p = Inl e"
  then show "\<exists>pre r post. rs = pre @ r # post \<and> method' r = m \<and> mp (path r) p = Inl e
         \<and> (\<forall>q\<in>set pre. method' q = m \<longrightarrow> mp (path q) p = Inr None)"
    by (rule findRouteBy_Inl_decomp)
next
  assume "\<exists>pre r post. rs = pre @ r # post \<and> method' r = m \<and> mp (path r) p = Inl e
         \<and> (\<forall>q\<in>set pre. method' q = m \<longrightarrow> mp (path q) p = Inr None)"
  then show "findRouteBy mp rs m p = Inl e"
    by (auto simp: findRouteBy_skip)
next
  fix pre A mid B post psA psB
  assume "rs = pre @ A # mid @ B # post \<and> method' A = m \<and> method' B = m
        \<and> mp (path A) p = Inr (Some psA) \<and> mp (path B) p = Inr (Some psB)
        \<and> (\<forall>q\<in>set pre. method' q = m \<longrightarrow> mp (path q) p = Inr None)"
  then show "findRouteBy mp rs m p = Inr (Some (A, psA))"
    by (auto simp: findRouteBy_skip)
qed


lemma ex_users_id: "matchPath ''/users/:id'' ''/users/me'' = Inr (Some [''id'' \<mapsto> ''me''])"
proof -
  have a: "replaceParams ''/users/:id'' = (''/users/([^/]+)'', [''id''])" by code_simp
  have b: "newRegExp (''^'' @ replaceStars ''/users/([^/]+)'' @ ''$'')
           = Inr (projr (newRegExp ''^/users/([^/]+)$''))" by code_simp
  have c: "stringMatch ''/users/me'' (projr (newRegExp ''^/users/([^/]+)$''))
           = Some [Some ''/users/me'', Some ''me'']" by code_simp
  show ?thesis
    by (simp add: matchPath_eval[OF a b] c setParam_def orEmpty_def)
qed

lemma ex_users_me: "matchPath ''/users/me'' ''/users/me'' = Inr (Some Map.empty)"
proof -
  have a: "replaceParams ''/users/me'' = (''/users/me'', [])" by code_simp
  have b: "newRegExp (''^'' @ replaceStars ''/users/me'' @ ''$'')
           = Inr (projr (newRegExp ''^/users/me$''))" by code_simp
  have c: "stringMatch ''/users/me'' (projr (newRegExp ''^/users/me$''))
           = Some [Some ''/users/me'']" by code_simp
  show ?thesis
    by (simp add: matchPath_eval[OF a b] c setParam_def orEmpty_def)
qed

lemma ex_star_users_me: "matchPath ''/*'' ''/users/me'' = Inr (Some Map.empty)"
proof -
  have a: "replaceParams ''/*'' = (''/*'', [])" by code_simp
  have b: "newRegExp (''^'' @ replaceStars ''/*'' @ ''$'')
           = Inr (projr (newRegExp ''^/.*$''))" by code_simp
  have c: "stringMatch ''/users/me'' (projr (newRegExp ''^/.*$''))
           = Some [Some ''/users/me'']" by code_simp
  show ?thesis
    by (simp add: matchPath_eval[OF a b] c setParam_def orEmpty_def)
qed

lemma ex_ok: "matchPath ''/ok'' ''/ok'' = Inr (Some Map.empty)"
proof -
  have a: "replaceParams ''/ok'' = (''/ok'', [])" by code_simp
  have b: "newRegExp (''^'' @ replaceStars ''/ok'' @ ''$'')
           = Inr (projr (newRegExp ''^/ok$''))" by code_simp
  have c: "stringMatch ''/ok'' (projr (newRegExp ''^/ok$''))
           = Some [Some ''/ok'']" by code_simp
  show ?thesis
    by (simp add: matchPath_eval[OF a b] c setParam_def orEmpty_def)
qed

text \<open>The pattern \<^verbatim>\<open>/(\<close> gives the source text \<^verbatim>\<open>^/($\<close>, which is no regular expression.\<close>

lemma ex_unclosed: "matchPath ''/('' p = Inl SyntaxError"
proof -
  have a: "replaceParams ''/('' = (''/('', [])" by code_simp
  have b: "newRegExp (''^'' @ replaceStars ''/('' @ ''$'') = Inl SyntaxError" by code_simp
  from b show ?thesis by (simp add: matchPath_def pathToRegex_def a)
qed

theorem findRoute_first_match_wins_witness:
  "findRoute
     [\<lparr>method' = ''GET'', path = ''/users/:id'',
        handler = (\<lambda>c. (Inr (Data (Plain (JStr ''A''))), c)), middlewares = Some []\<rparr>,
      \<lparr>method' = ''GET'', path = ''/users/me'',
        handler = (\<lambda>c. (Inr (Data (Plain (JStr ''B''))), c)), middlewares = Some []\<rparr>]
     ''GET'' ''/users/me''
   = Inr (Some (\<lparr>method' = ''GET'', path = ''/users/:id'',
                  handler = (\<lambda>c. (Inr (Data (Plain (JStr ''A''))), c)), middlewares = Some []\<rparr>,
                [''id'' \<mapsto> ''me'']))"
proof -
  let ?A = "\<lparr>method' = ''GET'', path = ''/users/:id'',
        handler = (\<lambda>c. (Inr (Data (Plain (JStr ''A''))), c)), middlewares = Some []\<rparr>"
  let ?B = "\<lparr>method' = ''GET'', path = ''/users/me'',
        handler = (\<lambda>c. (Inr (Data (Plain (JStr ''B''))), c)), middlewares = Some []\<rparr>"
  have "[?A, ?B] = [] @ ?A # [] @ ?B # [] \<and> method' ?A = ''GET'' \<and> method' ?B = ''GET''
        \<and> matchPath (path ?A) ''/users/me'' = Inr (Some [''id'' \<mapsto> ''me''])
        \<and> matchPath (path ?B) ''/users/me'' = Inr (Some Map.empty)
        \<and> (\<forall>q\<in>set []. method' q = ''GET'' \<longrightarrow> matchPath (path q) ''/users/me'' = Inr None)"
    by (simp add: ex_users_id ex_users_me)
  with findRoute_first_match_wins[of matchPath "[?A, ?B]" "''GET''" "''/users/me''"]
  show ?thesis unfolding findRoute_def by blast
qed

text \<open>
  The claim as stated fails in two ways. With the route \<^verbatim>\<open>/(\<close> registered before the
  route \<^verbatim>\<open>/ok\<close>, the lookup of \<^verbatim>\<open>/ok\<close> throws, although the second route matches and the
  first does not. And with \<^verbatim>\<open>/*\<close> registered before \<open>A\<close> = \<^verbatim>\<open>/users/:id\<close> and \<open>B\<close> =
  \<^verbatim>\<open>/users/me\<close>, which both match \<^verbatim>\<open>/users/me\<close>, the lookup returns neither \<open>A\<close> nor
  \<open>B\<close> but the route \<^verbatim>\<open>/*\<close>.
\<close>

theorem findRoute_first_match_wins_counterexample:
  "findRoute
     [\<lparr>method' = ''GET'', path = ''/('', handler = (\<lambda>c. (Inr Undefined, c)),
        middlewares = Some []\<rparr>,
      \<lparr>method' = ''GET'', path = ''/ok'', handler = (\<lambda>c. (Inr Undefined, c)),
        middlewares = Some []\<rparr>]
     ''GET'' ''/ok''
   = Inl SyntaxError
   \<and> matchPath ''/ok'' ''/ok'' = Inr (Some Map.empty)
   \<and> findRoute
     [\<lparr>method' = ''GET'', path = ''/*'',
        handler = (\<lambda>c. (Inr (Data (Plain (JStr ''W''))), c)), middlewares = Some []\<rparr>,
      \<lparr>method' = ''GET'', path = ''/users/:id'',
        handler = (\<lambda>c. (Inr (Data (Plain (JStr ''A''))), c)), middlewares = Some []\<rparr>,
      \<lparr>method' = ''GET'', path = ''/users/me'',
        handler = (\<lambda>c. (Inr (Data (Plain (JStr ''B''))), c)), middlewares = Some []\<rparr>]
     ''GET'' ''/users/me''
   = Inr (Some (\<lparr>method' = ''GET'', path = ''/*'',
                  handler = (\<lambda>c. (Inr (Data (Plain (JStr ''W''))), c)), middlewares = Some []\<rparr>,
                Map.empty))
   \<and> matchPath ''/users/:id'' ''/users/me'' = Inr (Some [''id'' \<mapsto> ''me''])
   \<and> matchPath ''/users/me'' ''/users/me'' = Inr (Some Map.empty)"
  by (simp add: findRoute_def ex_unclosed ex_ok ex_star_users_me ex_users_id ex_users_me)


subsection \<open>Plain patterns: source text, parser, matcher\<close>


subsection \<open>From the pattern to the source text\<close>

lemma replaceParams_segments:
  "replaceParams pat = (concat (map rawText (segments pat)), paramNames (segments pat))"
  by (induction pat rule: replaceParams.induct) (auto split: prod.splits)

lemma replaceStars_append: "replaceStars (a @ b) = replaceStars a @ replaceStars b"
  by (simp add: replaceStars_def)

lemma segments_no_star: "Lit c \<in> set (segments pat) \<Longrightarrow> c \<noteq> CHR ''*''"
  by (induction pat rule: segments.induct) (auto split: if_splits)

lemma replaceStars_rawText:
  "(\<forall>c. Lit c \<in> set ss \<longrightarrow> c \<noteq> CHR ''*'') \<Longrightarrow>
   replaceStars (concat (map rawText ss)) = concat (map regexText ss)"
proof (induction ss)
  case Nil
  then show ?case by (simp add: replaceStars_def)
next
  case (Cons s ss)
  then have "replaceStars (rawText s) = regexText s"
    by (cases s) (auto simp: replaceStars_def)
  with Cons show ?case by (simp add: replaceStars_append)
qed

lemma pathToRegex_source:
  "pathToRegex pat =
     (case newRegExp (''^'' @ concat (map regexText (segments pat)) @ ''$'') of
        Inl e \<Rightarrow> Inl e
      | Inr re \<Rightarrow> Inr \<lparr>pattern = re, keys = paramNames (segments pat)\<rparr>)"
  using replaceStars_rawText[of "segments pat"] segments_no_star[of _ pat]
  by (simp add: pathToRegex_def replaceParams_segments)

subsection \<open>The parser on that text\<close>

lemma pstep_plain:
  "ready st \<Longrightarrow> c \<notin> set syntaxChars \<Longrightarrow> pstep st c = st\<lparr>cur := RChar c # cur st\<rparr>"
  by (auto simp: ready_def pstep_def pnormal_def patom_def syntaxChars_def)

lemma pstep_wild:
  "ready st \<Longrightarrow> foldl pstep st ''.*'' = st\<lparr>cur := RStar RAny # cur st\<rparr>"
  by (auto simp: ready_def pstep_def pnormal_def patom_def pquant_def)

lemma pstep_param:
  "ready st \<Longrightarrow>
   foldl pstep st ''([^/]+)'' =
     st\<lparr>cur := RGroup (ngroups st) (RAlt [RSeq [RPlus (RClass True ''/'')]]) # cur st,
        ngroups := Suc (ngroups st)\<rparr>"
  by (auto simp: ready_def pstep_def pnormal_def patom_def pquant_def)

lemma parse_segments:
  "ready st \<Longrightarrow> list_all plainSeg ss \<Longrightarrow>
   foldl pstep st (concat (map regexText ss)) =
     st\<lparr>cur := rev (terms (ngroups st) ss) @ cur st,
        ngroups := ngroups st + length (paramNames ss)\<rparr>"
proof (induction ss arbitrary: st)
  case Nil
  then show ?case by simp
next
  case (Cons s ss)
  have step: "foldl pstep st (concat (map regexText (s # ss)))
      = foldl pstep (foldl pstep st (regexText s)) (concat (map regexText ss))"
    by simp
  show ?case
  proof (cases s)
    case (Lit c)
    with Cons.prems have c: "c \<notin> set syntaxChars" by simp
    let ?st' = "st\<lparr>cur := RChar c # cur st\<rparr>"
    from Cons.prems(1) have "ready ?st'" by (simp add: ready_def)
    from Cons.IH[OF this] Cons.prems(2) have
      "foldl pstep ?st' (concat (map regexText ss)) =
         ?st'\<lparr>cur := rev (terms (ngroups ?st') ss) @ cur ?st',
               ngroups := ngroups ?st' + length (paramNames ss)\<rparr>" by simp
    moreover from pstep_plain[OF Cons.prems(1) c] Lit
    have "foldl pstep st (regexText s) = ?st'" by simp
    ultimately show ?thesis unfolding step using Lit by simp
  next
    case (Param name)
    let ?st' = "st\<lparr>cur := RGroup (ngroups st) (RAlt [RSeq [RPlus (RClass True ''/'')]]) # cur st,
                  ngroups := Suc (ngroups st)\<rparr>"
    from Cons.prems(1) have "ready ?st'" by (simp add: ready_def)
    from Cons.IH[OF this] Cons.prems(2) have
      "foldl pstep ?st' (concat (map regexText ss)) =
         ?st'\<lparr>cur := rev (terms (ngroups ?st') ss) @ cur ?st',
               ngroups := ngroups ?st' + length (paramNames ss)\<rparr>" by simp
    moreover from pstep_param[OF Cons.prems(1)] Param
    have "foldl pstep st (regexText s) = ?st'" by (simp del: foldl_Cons)
    ultimately show ?thesis unfolding step using Param by simp
  next
    case Wild
    let ?st' = "st\<lparr>cur := RStar RAny # cur st\<rparr>"
    from Cons.prems(1) have "ready ?st'" by (simp add: ready_def)
    from Cons.IH[OF this] Cons.prems(2) have
      "foldl pstep ?st' (concat (map regexText ss)) =
         ?st'\<lparr>cur := rev (terms (ngroups ?st') ss) @ cur ?st',
               ngroups := ngroups ?st' + length (paramNames ss)\<rparr>" by simp
    moreover from pstep_wild[OF Cons.prems(1)] Wild
    have "foldl pstep st (regexText s) = ?st'" by (simp del: foldl_Cons)
    ultimately show ?thesis unfolding step using Wild by simp
  qed
qed

lemma newRegExp_plain:
  assumes "list_all plainSeg ss"
  shows "newRegExp (''^'' @ concat (map regexText ss) @ ''$'') =
     Inr (RAlt [RSeq (RBol # terms 0 ss @ [REol])], length (paramNames ss))"
proof -
  let ?st = "pinit\<lparr>cur := [RBol]\<rparr>"
  have s: "pstep pinit (CHR ''^'') = ?st"
    by (simp add: pstep_def pnormal_def patom_def pinit_def)
  have r: "ready ?st" by (simp add: ready_def pinit_def)
  let ?st' = "?st\<lparr>cur := rev (terms (ngroups ?st) ss) @ cur ?st,
        ngroups := ngroups ?st + length (paramNames ss)\<rparr>"
  have "pstep ?st' (CHR ''$'') = ?st'\<lparr>cur := REol # cur ?st'\<rparr>"
    by (simp add: pstep_def pnormal_def patom_def pinit_def)
  with parse_segments[OF r assms] s show ?thesis
    by (simp add: newRegExp_def pfinish_def pinit_def)
qed


subsection \<open>The matcher on the terms of a plain pattern\<close>

lemma matchStar_single:
  assumes one: "\<And>s caps. matchRx n r s caps =
                   (case s of [] \<Rightarrow> [] | x # xs \<Rightarrow> if P x then [(xs, caps)] else [])"
    and nogroups: "groupsOf r = []"
  shows "set (matchStar n r s caps) = {(s', caps) |s'. \<exists>w. s = w @ s' \<and> (\<forall>x\<in>set w. P x)}"
proof (induction s)
  case Nil
  show ?case
    by (subst matchStar.simps) (auto simp: one clearCaps_def nogroups)
next
  case (Cons x xs)
  show ?case
  proof (cases "P x")
    case True
    have "set (matchStar n r (x # xs) caps) = set (matchStar n r xs caps) \<union> {(x # xs, caps)}"
      by (subst matchStar.simps) (simp add: one clearCaps_def nogroups True)
    also have "\<dots> = {(s', caps) |s'. \<exists>w. xs = w @ s' \<and> (\<forall>x\<in>set w. P x)} \<union> {(x # xs, caps)}"
      by (simp add: Cons.IH)
    also have "\<dots> = {(s', caps) |s'. \<exists>w. x # xs = w @ s' \<and> (\<forall>x\<in>set w. P x)}"
    proof (intro set_eqI iffI)
      fix z assume "z \<in> {(s', caps) |s'. \<exists>w. xs = w @ s' \<and> (\<forall>x\<in>set w. P x)} \<union> {(x # xs, caps)}"
      then consider s' w where "z = (s', caps)" "xs = w @ s'" "\<forall>x\<in>set w. P x"
        | "z = (x # xs, caps)" by auto
      then show "z \<in> {(s', caps) |s'. \<exists>w. x # xs = w @ s' \<and> (\<forall>x\<in>set w. P x)}"
      proof cases
        case 1
        with True have "x # xs = (x # w) @ s' \<and> (\<forall>y\<in>set (x # w). P y)" by simp
        with 1(1) show ?thesis by blast
      next
        case 2
        have "x # xs = [] @ (x # xs) \<and> (\<forall>y\<in>set []. P y)" by simp
        with 2 show ?thesis by blast
      qed
    next
      fix z assume "z \<in> {(s', caps) |s'. \<exists>w. x # xs = w @ s' \<and> (\<forall>x\<in>set w. P x)}"
      then obtain s' w where z: "z = (s', caps)" and e: "x # xs = w @ s'" and p: "\<forall>x\<in>set w. P x"
        by auto
      show "z \<in> {(s', caps) |s'. \<exists>w. xs = w @ s' \<and> (\<forall>x\<in>set w. P x)} \<union> {(x # xs, caps)}"
      proof (cases w)
        case Nil
        with e z show ?thesis by simp
      next
        case (Cons y w')
        with e p have "xs = w' @ s'" "\<forall>x\<in>set w'. P x" by simp_all
        with z show ?thesis by blast
      qed
    qed
    finally show ?thesis .
  next
    case False
    have "set (matchStar n r (x # xs) caps) = {(x # xs, caps)}"
      by (subst matchStar.simps) (simp add: one clearCaps_def nogroups False)
    also have "\<dots> = {(s', caps) |s'. \<exists>w. x # xs = w @ s' \<and> (\<forall>x\<in>set w. P x)}"
    proof (intro set_eqI iffI)
      fix z assume "z \<in> {(x # xs, caps)}"
      moreover have "x # xs = [] @ (x # xs) \<and> (\<forall>y\<in>set []. P y)" by simp
      ultimately show "z \<in> {(s', caps) |s'. \<exists>w. x # xs = w @ s' \<and> (\<forall>x\<in>set w. P x)}"
        by blast
    next
      fix z assume "z \<in> {(s', caps) |s'. \<exists>w. x # xs = w @ s' \<and> (\<forall>x\<in>set w. P x)}"
      then obtain s' w where z: "z = (s', caps)" and e: "x # xs = w @ s'" and p: "\<forall>x\<in>set w. P x"
        by auto
      from e p False have "w = []" by (cases w) auto
      with e z show "z \<in> {(x # xs, caps)}" by simp
    qed
    finally show ?thesis .
  qed
qed

lemma match_wild:
  "set (matchRx n (RStar RAny) s caps)
     = {(s', caps) |s'. \<exists>w. s = w @ s' \<and> (\<forall>x\<in>set w. \<not> lineTerminator x)}"
proof -
  have "set (matchStar n RAny s caps)
     = {(s', caps) |s'. \<exists>w. s = w @ s' \<and> (\<forall>x\<in>set w. \<not> lineTerminator x)}"
    by (rule matchStar_single) (auto split: list.splits)
  then show ?thesis by simp
qed

lemma match_param:
  "set (matchRx n (RGroup k (RAlt [RSeq [RPlus (RClass True ''/'')]])) s caps)
     = {(s', caps[k := Some w]) |s' w. s = w @ s' \<and> w \<noteq> [] \<and> CHR ''/'' \<notin> set w}"
proof -
  let ?r = "RClass True ''/''"
  have star: "\<And>t. set (matchStar n ?r t caps)
      = {(s', caps) |s'. \<exists>w. t = w @ s' \<and> (\<forall>x\<in>set w. x \<noteq> CHR ''/'')}"
    by (rule matchStar_single) (auto split: list.splits)
  have plus: "set (matchRx n (RPlus ?r) s caps)
      = {(s', caps) |s'. \<exists>w. s = w @ s' \<and> w \<noteq> [] \<and> CHR ''/'' \<notin> set w}"
  proof (cases s)
    case Nil
    then show ?thesis by (simp add: clearCaps_def)
  next
    case (Cons x xs)
    show ?thesis
    proof (cases "x = CHR ''/''")
      case True
      have "\<And>w s'. x # xs = w @ s' \<Longrightarrow> w \<noteq> [] \<Longrightarrow> CHR ''/'' \<in> set w"
        using True by (case_tac w) auto
      with Cons True show ?thesis by (auto simp: clearCaps_def)
    next
      case False
      have "{(s', caps) |s'. \<exists>w. xs = w @ s' \<and> (\<forall>x\<in>set w. x \<noteq> CHR ''/'')}
          = {(s', caps) |s'. \<exists>w. x # xs = w @ s' \<and> w \<noteq> [] \<and> CHR ''/'' \<notin> set w}"
      proof (intro set_eqI iffI)
        fix z assume "z \<in> {(s', caps) |s'. \<exists>w. xs = w @ s' \<and> (\<forall>x\<in>set w. x \<noteq> CHR ''/'')}"
        then obtain s' w where "z = (s', caps)" "xs = w @ s'" "\<forall>x\<in>set w. x \<noteq> CHR ''/''" by auto
        with False have "z = (s', caps) \<and> x # xs = (x # w) @ s' \<and> x # w \<noteq> []
            \<and> CHR ''/'' \<notin> set (x # w)" by auto
        then show "z \<in> {(s', caps) |s'. \<exists>w. x # xs = w @ s' \<and> w \<noteq> [] \<and> CHR ''/'' \<notin> set w}"
          by blast
      next
        fix z assume "z \<in> {(s', caps) |s'. \<exists>w. x # xs = w @ s' \<and> w \<noteq> [] \<and> CHR ''/'' \<notin> set w}"
        then obtain s' w where z: "z = (s', caps)" and e: "x # xs = w @ s'" and w: "w \<noteq> []"
          and n: "CHR ''/'' \<notin> set w" by auto
        from w obtain y w' where c: "w = y # w'" by (cases w) auto
        with e n have "xs = w' @ s' \<and> (\<forall>x\<in>set w'. x \<noteq> CHR ''/'')" by auto
        with z show "z \<in> {(s', caps) |s'. \<exists>w. xs = w @ s' \<and> (\<forall>x\<in>set w. x \<noteq> CHR ''/'')}"
          by blast
      qed
      with Cons False star[of xs] show ?thesis by (simp add: clearCaps_def)
    qed
  qed
  have seq: "matchRx n (RAlt [RSeq [RPlus ?r]]) s caps = matchRx n (RPlus ?r) s caps"
    by (simp del: matchRx.simps(8)) (induction "matchRx n (RPlus ?r) s caps", auto)
  have "set (matchRx n (RGroup k (RAlt [RSeq [RPlus ?r]])) s caps)
      = (\<lambda>(s', caps'). (s', caps'[k := Some (take (length s - length s') s)]))
          ` set (matchRx n (RPlus ?r) s caps)"
    by (simp only: matchRx.simps(6) seq set_map)
  also have "\<dots> = (\<lambda>(s', caps'). (s', caps'[k := Some (take (length s - length s') s)]))
          ` {(s', caps) |s'. \<exists>w. s = w @ s' \<and> w \<noteq> [] \<and> CHR ''/'' \<notin> set w}"
    by (simp only: plus)
  also have "\<dots> = {(s', caps[k := Some w]) |s' w. s = w @ s' \<and> w \<noteq> [] \<and> CHR ''/'' \<notin> set w}"
    by (auto simp: image_iff)
  finally show ?thesis .
qed




lemma match_terms:
  "set (matchSeq n (terms k ss @ [REol]) s caps)
     = {([], capsAfter k ss pieces caps) |pieces. list_all2 fits ss pieces \<and> concat pieces = s}"
proof (induction ss arbitrary: k s caps)
  case Nil
  show ?case by auto
next
  case (Cons seg ss)
  have unfold: "set (matchSeq n (r # terms k' ss @ [REol]) s caps)
      = (\<Union>(s1, c1)\<in>set (matchRx n r s caps). set (matchSeq n (terms k' ss @ [REol]) s1 c1))" for k' r
    by (simp only: matchSeq.simps set_concat set_map) auto
  show ?case
  proof (cases seg)
    case (Lit c)
    have "set (matchSeq n (terms k (Lit c # ss) @ [REol]) s caps)
        = (\<Union>(s1, c1)\<in>set (matchRx n (RChar c) s caps). set (matchSeq n (terms k ss @ [REol]) s1 c1))"
      using unfold[where k' = k and r = "RChar c"] by simp
    also have "\<dots> = (\<Union>(s1, c1)\<in>set (matchRx n (RChar c) s caps).
          {([], capsAfter k ss pieces c1) |pieces. list_all2 fits ss pieces \<and> concat pieces = s1})"
      by (simp only: Cons.IH)
    also have "\<dots> = {([], capsAfter k (Lit c # ss) pieces caps) |pieces.
          list_all2 fits (Lit c # ss) pieces \<and> concat pieces = s}"
    proof (intro set_eqI iffI)
      fix z assume "z \<in> (\<Union>(s1, c1)\<in>set (matchRx n (RChar c) s caps).
          {([], capsAfter k ss pieces c1) |pieces. list_all2 fits ss pieces \<and> concat pieces = s1})"
      then obtain s1 pieces where s: "s = c # s1" and z: "z = ([], capsAfter k ss pieces caps)"
        and p: "list_all2 fits ss pieces" "concat pieces = s1"
        by (auto split: list.splits if_splits)
      then have "z = ([], capsAfter k (Lit c # ss) ([c] # pieces) caps)
          \<and> list_all2 fits (Lit c # ss) ([c] # pieces) \<and> concat ([c] # pieces) = s"
        by simp
      then show "z \<in> {([], capsAfter k (Lit c # ss) pieces caps) |pieces.
          list_all2 fits (Lit c # ss) pieces \<and> concat pieces = s}" by blast
    next
      fix z assume "z \<in> {([], capsAfter k (Lit c # ss) pieces caps) |pieces.
          list_all2 fits (Lit c # ss) pieces \<and> concat pieces = s}"
      then obtain pieces where z: "z = ([], capsAfter k (Lit c # ss) pieces caps)"
        and f: "list_all2 fits (Lit c # ss) pieces" and e: "concat pieces = s" by auto
      from f obtain ps where p: "pieces = [c] # ps" "list_all2 fits ss ps"
        by (auto simp: list_all2_Cons1)
      with e have "(concat ps, caps) \<in> set (matchRx n (RChar c) s caps)" by auto
      moreover from z p have "z \<in> {([], capsAfter k ss pieces caps) |pieces.
          list_all2 fits ss pieces \<and> concat pieces = concat ps}" by auto
      ultimately show "z \<in> (\<Union>(s1, c1)\<in>set (matchRx n (RChar c) s caps).
          {([], capsAfter k ss pieces c1) |pieces. list_all2 fits ss pieces \<and> concat pieces = s1})"
        by blast
    qed
    finally show ?thesis using Lit by simp
  next
    case (Param name)
    let ?g = "RGroup k (RAlt [RSeq [RPlus (RClass True ''/'')]])"
    have "set (matchSeq n (terms k (Param name # ss) @ [REol]) s caps)
        = (\<Union>(s1, c1)\<in>set (matchRx n ?g s caps). set (matchSeq n (terms (Suc k) ss @ [REol]) s1 c1))"
      using unfold[where k' = "Suc k" and r = ?g] by simp
    also have "\<dots> = (\<Union>(s1, c1)\<in>set (matchRx n ?g s caps).
          {([], capsAfter (Suc k) ss pieces c1) |pieces. list_all2 fits ss pieces \<and> concat pieces = s1})"
      by (simp only: Cons.IH)
    also have "\<dots> = (\<Union>(s1, c1)\<in>{(s', caps[k := Some w]) |s' w. s = w @ s' \<and> w \<noteq> [] \<and> CHR ''/'' \<notin> set w}.
          {([], capsAfter (Suc k) ss pieces c1) |pieces. list_all2 fits ss pieces \<and> concat pieces = s1})"
      by (simp only: match_param)
    also have "\<dots> = {([], capsAfter k (Param name # ss) pieces caps) |pieces.
          list_all2 fits (Param name # ss) pieces \<and> concat pieces = s}"
    proof (intro set_eqI iffI)
      fix z assume "z \<in> (\<Union>(s1, c1)\<in>{(s', caps[k := Some w]) |s' w. s = w @ s' \<and> w \<noteq> [] \<and> CHR ''/'' \<notin> set w}.
          {([], capsAfter (Suc k) ss pieces c1) |pieces. list_all2 fits ss pieces \<and> concat pieces = s1})"
      then obtain s1 w pieces where s: "s = w @ s1" "w \<noteq> []" "CHR ''/'' \<notin> set w"
        and z: "z = ([], capsAfter (Suc k) ss pieces (caps[k := Some w]))"
        and p: "list_all2 fits ss pieces" "concat pieces = s1"
        by auto
      then have "z = ([], capsAfter k (Param name # ss) (w # pieces) caps)
          \<and> list_all2 fits (Param name # ss) (w # pieces) \<and> concat (w # pieces) = s"
        by simp
      then show "z \<in> {([], capsAfter k (Param name # ss) pieces caps) |pieces.
          list_all2 fits (Param name # ss) pieces \<and> concat pieces = s}" by blast
    next
      fix z assume "z \<in> {([], capsAfter k (Param name # ss) pieces caps) |pieces.
          list_all2 fits (Param name # ss) pieces \<and> concat pieces = s}"
      then obtain pieces where z: "z = ([], capsAfter k (Param name # ss) pieces caps)"
        and f: "list_all2 fits (Param name # ss) pieces" and e: "concat pieces = s" by auto
      from f obtain w ps where p: "pieces = w # ps" "w \<noteq> []" "CHR ''/'' \<notin> set w"
          "list_all2 fits ss ps"
        by (auto simp: list_all2_Cons1)
      with e have "(concat ps, caps[k := Some w])
          \<in> {(s', caps[k := Some w]) |s' w. s = w @ s' \<and> w \<noteq> [] \<and> CHR ''/'' \<notin> set w}" by auto
      moreover from z p have "z \<in> {([], capsAfter (Suc k) ss pieces (caps[k := Some w])) |pieces.
          list_all2 fits ss pieces \<and> concat pieces = concat ps}" by auto
      ultimately show "z \<in> (\<Union>(s1, c1)\<in>{(s', caps[k := Some w]) |s' w. s = w @ s' \<and> w \<noteq> [] \<and> CHR ''/'' \<notin> set w}.
          {([], capsAfter (Suc k) ss pieces c1) |pieces. list_all2 fits ss pieces \<and> concat pieces = s1})"
        by blast
    qed
    finally show ?thesis using Param by simp
  next
    case Wild
    have "set (matchSeq n (terms k (Wild # ss) @ [REol]) s caps)
        = (\<Union>(s1, c1)\<in>set (matchRx n (RStar RAny) s caps). set (matchSeq n (terms k ss @ [REol]) s1 c1))"
      using unfold[where k' = k and r = "RStar RAny"] by simp
    also have "\<dots> = (\<Union>(s1, c1)\<in>set (matchRx n (RStar RAny) s caps).
          {([], capsAfter k ss pieces c1) |pieces. list_all2 fits ss pieces \<and> concat pieces = s1})"
      by (simp only: Cons.IH)
    also have "\<dots> = (\<Union>(s1, c1)\<in>{(s', caps) |s'. \<exists>w. s = w @ s' \<and> (\<forall>x\<in>set w. \<not> lineTerminator x)}.
          {([], capsAfter k ss pieces c1) |pieces. list_all2 fits ss pieces \<and> concat pieces = s1})"
      by (simp only: match_wild)
    also have "\<dots> = {([], capsAfter k (Wild # ss) pieces caps) |pieces.
          list_all2 fits (Wild # ss) pieces \<and> concat pieces = s}"
    proof (intro set_eqI iffI)
      fix z assume "z \<in> (\<Union>(s1, c1)\<in>{(s', caps) |s'. \<exists>w. s = w @ s' \<and> (\<forall>x\<in>set w. \<not> lineTerminator x)}.
          {([], capsAfter k ss pieces c1) |pieces. list_all2 fits ss pieces \<and> concat pieces = s1})"
      then obtain s1 w pieces where s: "s = w @ s1" "\<forall>x\<in>set w. \<not> lineTerminator x"
        and z: "z = ([], capsAfter k ss pieces caps)"
        and p: "list_all2 fits ss pieces" "concat pieces = s1"
        by auto
      then have "z = ([], capsAfter k (Wild # ss) (w # pieces) caps)
          \<and> list_all2 fits (Wild # ss) (w # pieces) \<and> concat (w # pieces) = s"
        by simp
      then show "z \<in> {([], capsAfter k (Wild # ss) pieces caps) |pieces.
          list_all2 fits (Wild # ss) pieces \<and> concat pieces = s}" by blast
    next
      fix z assume "z \<in> {([], capsAfter k (Wild # ss) pieces caps) |pieces.
          list_all2 fits (Wild # ss) pieces \<and> concat pieces = s}"
      then obtain pieces where z: "z = ([], capsAfter k (Wild # ss) pieces caps)"
        and f: "list_all2 fits (Wild # ss) pieces" and e: "concat pieces = s" by auto
      from f obtain w ps where p: "pieces = w # ps" "\<forall>x\<in>set w. \<not> lineTerminator x"
          "list_all2 fits ss ps"
        by (auto simp: list_all2_Cons1)
      with e have "(concat ps, caps)
          \<in> {(s', caps) |s'. \<exists>w. s = w @ s' \<and> (\<forall>x\<in>set w. \<not> lineTerminator x)}" by auto
      moreover from z p have "z \<in> {([], capsAfter k ss pieces caps) |pieces.
          list_all2 fits ss pieces \<and> concat pieces = concat ps}" by auto
      ultimately show "z \<in> (\<Union>(s1, c1)\<in>{(s', caps) |s'. \<exists>w. s = w @ s' \<and> (\<forall>x\<in>set w. \<not> lineTerminator x)}.
          {([], capsAfter k ss pieces c1) |pieces. list_all2 fits ss pieces \<and> concat pieces = s1})"
        by blast
    qed
    finally show ?thesis using Wild by simp
  qed
qed




lemma execFrom_anchored:
  "length t < n \<Longrightarrow> execFrom (RAlt [RSeq (RBol # ts)], g) n t = None"
proof (induction t)
  case Nil
  then show ?case by (subst execFrom.simps) simp
next
  case (Cons x t)
  then show ?case by (subst execFrom.simps) simp
qed

lemma stringMatch_plain:
  "stringMatch pth (RAlt [RSeq (RBol # terms 0 ss @ [REol])], g) =
     (case matchSeq (length pth) (terms 0 ss @ [REol]) pth (replicate g None) of
        [] \<Rightarrow> None
      | (s', caps) # _ \<Rightarrow> Some (Some (take (length pth - length s') pth) # caps))"
proof -
  have m: "matchRx (length pth) (RAlt [RSeq (RBol # terms 0 ss @ [REol])]) pth (replicate g None)
      = matchSeq (length pth) (terms 0 ss @ [REol]) pth (replicate g None)"
    by simp
  show ?thesis
  proof (cases pth)
    case Nil
    then show ?thesis
      by (subst stringMatch_def, subst execFrom.simps) (simp split: list.splits)
  next
    case (Cons x t)
    then have "execFrom (RAlt [RSeq (RBol # terms 0 ss @ [REol])], g) (length pth) t = None"
      by (simp add: execFrom_anchored)
    with Cons m show ?thesis
      by (subst stringMatch_def, subst execFrom.simps)
         (simp split: list.splits del: matchRx.simps matchSeq.simps)
  qed
qed

lemma bindings_names:
  "list_all2 fits ss pieces \<Longrightarrow> map fst (bindings ss pieces) = paramNames ss"
proof (induction ss arbitrary: pieces)
  case Nil
  then show ?case by simp
next
  case (Cons s ss)
  then obtain p ps where "pieces = p # ps" "list_all2 fits ss ps"
    by (auto simp: list_all2_Cons1)
  with Cons.IH show ?case by (cases s) simp_all
qed

lemma capsAfter_bindings:
  "list_all2 fits ss pieces \<Longrightarrow> length caps = k + length (paramNames ss) \<Longrightarrow>
   capsAfter k ss pieces caps = take k caps @ map (Some \<circ> snd) (bindings ss pieces)"
proof (induction ss arbitrary: pieces k caps)
  case Nil
  then show ?case by simp
next
  case (Cons s ss)
  then obtain p ps where p: "pieces = p # ps" "list_all2 fits ss ps"
    by (auto simp: list_all2_Cons1)
  show ?case
  proof (cases s)
    case (Param name)
    from Cons.prems(2) Param have l: "length (caps[k := Some p]) = Suc k + length (paramNames ss)"
      and k: "k < length caps" by simp_all
    from Cons.IH[OF p(2) l] have "capsAfter (Suc k) ss ps (caps[k := Some p])
        = take (Suc k) (caps[k := Some p]) @ map (Some \<circ> snd) (bindings ss ps)" .
    moreover from k have "take (Suc k) (caps[k := Some p]) = take k caps @ [Some p]"
      by (simp add: take_Suc_conv_app_nth)
    ultimately show ?thesis using Param p by simp
  next
    case (Lit c)
    with Cons.prems(2) have "length caps = k + length (paramNames ss)" by simp
    from Cons.IH[OF p(2) this] Lit p show ?thesis by simp
  next
    case Wild
    with Cons.prems(2) have "length caps = k + length (paramNames ss)" by simp
    from Cons.IH[OF p(2) this] Wild p show ?thesis by simp
  qed
qed

lemma params_from_match:
  assumes "map fst bs = ks"
  shows "foldl (\<lambda>ps (key, index). setParam ps key (orEmpty (w # map (Some \<circ> snd) bs) (index + 1)))
           Map.empty (zip ks [0..<length ks])
         = paramsOf bs"
proof -
  have "map (\<lambda>(key, index). (key, orEmpty (w # map (Some \<circ> snd) bs) (index + 1)))
          (zip ks [0..<length ks]) = bs"
    using assms by (intro nth_equalityI) (auto simp: orEmpty_def)
  then have "paramsOf bs
      = foldl (\<lambda>ps (key, v). setParam ps key v) Map.empty
          (map (\<lambda>(key, index). (key, orEmpty (w # map (Some \<circ> snd) bs) (index + 1)))
             (zip ks [0..<length ks]))"
    by (simp add: paramsOf_def)
  also have "\<dots> = foldl (\<lambda>ps (key, index). setParam ps key (orEmpty (w # map (Some \<circ> snd) bs) (index + 1)))
           Map.empty (zip ks [0..<length ks])"
    by (simp add: foldl_map case_prod_unfold)
  finally show ?thesis by simp
qed

lemma matchPath_plain:
  assumes "plain pat"
  shows "matchPath pat pth =
     (case matchSeq (length pth) (terms 0 (segments pat) @ [REol]) pth
             (replicate (length (paramNames (segments pat))) None) of
        [] \<Rightarrow> Inr None
      | (s', caps) # _ \<Rightarrow>
          Inr (Some (foldl (\<lambda>ps (key, index). setParam ps key
                         (orEmpty (Some (take (length pth - length s') pth) # caps) (index + 1)))
                       Map.empty
                       (zip (paramNames (segments pat)) [0..<length (paramNames (segments pat))]))))"
proof -
  from assms have p: "list_all plainSeg (segments pat)" by (simp add: plain_def)
  have "pathToRegex pat =
      Inr \<lparr>pattern = (RAlt [RSeq (RBol # terms 0 (segments pat) @ [REol])],
                        length (paramNames (segments pat))),
           keys = paramNames (segments pat)\<rparr>"
    using pathToRegex_source[of pat] newRegExp_plain[OF p] by simp
  then show ?thesis
    by (simp add: matchPath_def stringMatch_plain split: list.splits)
qed

lemma matchPath_plain_None:
  assumes "plain pat"
  shows "matchPath pat pth = Inr None
     \<longleftrightarrow> \<not> (\<exists>pieces. list_all2 fits (segments pat) pieces \<and> concat pieces = pth)"
proof -
  let ?R = "matchSeq (length pth) (terms 0 (segments pat) @ [REol]) pth
             (replicate (length (paramNames (segments pat))) None)"
  have "matchPath pat pth = Inr None \<longleftrightarrow> ?R = []"
    by (simp add: matchPath_plain[OF assms] split: list.splits)
  also have "\<dots> \<longleftrightarrow> set ?R = {}" by simp
  also have "\<dots> \<longleftrightarrow> \<not> (\<exists>pieces. list_all2 fits (segments pat) pieces \<and> concat pieces = pth)"
    by (simp only: match_terms) auto
  finally show ?thesis .
qed

lemma matchPath_plain_Some:
  assumes "plain pat" and "matchPath pat pth = Inr (Some ps)"
  shows "\<exists>pieces. list_all2 fits (segments pat) pieces \<and> concat pieces = pth
            \<and> ps = paramsOf (bindings (segments pat) pieces)"
proof -
  let ?ss = "segments pat"
  let ?g = "length (paramNames ?ss)"
  let ?R = "matchSeq (length pth) (terms 0 ?ss @ [REol]) pth (replicate ?g None)"
  from assms(2) obtain s' caps rest where r: "?R = (s', caps) # rest"
    and ps: "ps = foldl (\<lambda>ps (key, index). setParam ps key
                         (orEmpty (Some (take (length pth - length s') pth) # caps) (index + 1)))
                       Map.empty (zip (paramNames ?ss) [0..<?g])"
    by (auto simp: matchPath_plain[OF assms(1)] split: list.splits)
  from r have "(s', caps) \<in> set ?R" by simp
  then obtain pieces where p: "list_all2 fits ?ss pieces" "concat pieces = pth"
    and c: "caps = capsAfter 0 ?ss pieces (replicate ?g None)"
    by (simp only: match_terms) auto
  from capsAfter_bindings[OF p(1), of "replicate ?g None" 0] c
  have "caps = map (Some \<circ> snd) (bindings ?ss pieces)" by simp
  with ps params_from_match[OF bindings_names[OF p(1)]]
  have "ps = paramsOf (bindings ?ss pieces)" by simp
  with p show ?thesis by blast
qed

lemma matchPath_plain_total:
  assumes "plain pat"
  shows "\<exists>r. matchPath pat pth = Inr r"
  by (simp add: matchPath_plain[OF assms] split: list.splits)

lemma literal_segments: "literal pat \<Longrightarrow> segments pat = map Lit pat"
  unfolding literal_def
  by (induction pat rule: segments.induct) (auto split: if_splits)

lemma literal_plain: "literal pat \<Longrightarrow> plain pat"
proof -
  have "literalSeg s \<Longrightarrow> plainSeg s" for s by (cases s) simp_all
  then show "literal pat \<Longrightarrow> plain pat"
    by (auto simp: literal_def plain_def list_all_iff)
qed

lemma fits_literals:
  "list_all2 fits (map Lit pat) pieces \<longleftrightarrow> pieces = map (\<lambda>c. [c]) pat"
proof (induction pat arbitrary: pieces)
  case Nil
  then show ?case by simp
next
  case (Cons c pat)
  then show ?case by (auto simp: list_all2_Cons1)
qed

lemma bindings_literals: "bindings (map Lit pat) (map (\<lambda>c. [c]) pat) = []"
  by (induction pat) simp_all

lemma concat_singletons: "concat (map (\<lambda>c. [c]) pat) = pat"
  by (induction pat) simp_all


subsection \<open>Patterns: the claims\<close>


lemma matchPath_is_None:
  "(case matchPath pat pth of Inr None \<Rightarrow> True | _ \<Rightarrow> False) \<Longrightarrow> matchPath pat pth = Inr None"
  by (auto split: sum.splits option.splits)

lemma matchPath_is_SyntaxError:
  "(case matchPath pat pth of Inl SyntaxError \<Rightarrow> True | _ \<Rightarrow> False)
   \<Longrightarrow> matchPath pat pth = Inl SyntaxError"
  by (auto split: sum.splits option.splits rx_error.splits)

lemma ex_users_short: "matchPath ''/users/:id'' ''/users'' = Inr None"
  by (rule matchPath_is_None) code_simp

lemma ex_users_long: "matchPath ''/users/:id'' ''/users/1/extra'' = Inr None"
  by (rule matchPath_is_None) code_simp

lemma ex_users_posts:
  "matchPath ''/users/:id/posts/:postId'' ''/users/42/posts/7''
     = Inr (Some [''id'' \<mapsto> ''42'', ''postId'' \<mapsto> ''7''])"
proof -
  have a: "replaceParams ''/users/:id/posts/:postId''
             = (''/users/([^/]+)/posts/([^/]+)'', [''id'', ''postId''])" by code_simp
  have b: "newRegExp (''^'' @ replaceStars ''/users/([^/]+)/posts/([^/]+)'' @ ''$'')
           = Inr (projr (newRegExp ''^/users/([^/]+)/posts/([^/]+)$''))" by code_simp
  have c: "stringMatch ''/users/42/posts/7'' (projr (newRegExp ''^/users/([^/]+)/posts/([^/]+)$''))
           = Some [Some ''/users/42/posts/7'', Some ''42'', Some ''7'']" by code_simp
  show ?thesis
    by (simp add: matchPath_eval[OF a b] c setParam_def orEmpty_def upt_rec)
qed








subsection \<open>Registration\<close>


lemma routerInv_newRouter: "configAllocated config s \<Longrightarrow> routerInv (newRouter config s)"
  by (auto simp: routerInv_def configAllocated_def newRouter_def alloc_def split: option.splits)

lemma routerInv_use: "routerInv rs \<Longrightarrow> routerInv (use m rs)"
  by (cases rs) (auto simp: routerInv_def use_def push_def)

lemma routerInv_addRoute: "routerInv rs \<Longrightarrow> routerInv (addRoute meth p h mws rs)"
  by (cases rs) (auto simp: routerInv_def addRoute_def alloc_def Let_def)

lemma routerInv_registered: "configAllocated config s \<Longrightarrow> routerInv (registered config s regs)"
proof (induction regs rule: rev_induct)
  case Nil
  then show ?case by (simp add: registered_def routerInv_newRouter)
next
  case (snoc reg regs)
  then have "routerInv (registered config s regs)" by simp
  then have "routerInv (register reg (registered config s regs))"
    by (cases reg) (simp_all add: routerInv_use routerInv_addRoute)
  then show ?case by (simp add: registered_def)
qed

lemma getRoutes_use: "routerInv rs \<Longrightarrow> getRoutes (use m rs) = getRoutes rs"
  by (cases rs) (auto simp: routerInv_def use_def push_def getRoutes_def)

lemma getRoutes_addRoute:
  "routerInv rs \<Longrightarrow>
   getRoutes (addRoute meth p h mws rs) =
     getRoutes rs @ [\<lparr>method' = meth, path = prefix (fst rs) @ p, handler = h,
                      middlewares = Some (cells (snd rs) (router_middlewares (fst rs)) @ mws)\<rparr>]"
  by (cases rs) (auto simp: routerInv_def addRoute_def alloc_def getRoutes_def Let_def)

text \<open>
  Claim C10. For a router after its constructor and any registrations: \<open>addRoute\<close>
  appends a route whose middleware list is the router-level list of that moment followed
  by the route's own; a later \<open>use\<close> leaves that route and every other registered route
  as it was, so lookup and dispatch over the routes are the same before and after \<open>use\<close>.
\<close>

theorem use_leaves_registered_routes:
  "configAllocated config s \<longrightarrow>
     (let rs = registered config s regs;
          added = \<lparr>method' = meth, path = prefix (fst rs) @ p, handler = h,
                   middlewares = Some (cells (snd rs) (router_middlewares (fst rs)) @ mws)\<rparr>
      in getRoutes (addRoute meth p h mws rs) = getRoutes rs @ [added]
       \<and> getRoutes (use m (addRoute meth p h mws rs)) = getRoutes rs @ [added]
       \<and> getRoutes (use m rs) = getRoutes rs
       \<and> findRoute (getRoutes (use m rs)) meth' p' = findRoute (getRoutes rs) meth' p'
       \<and> handleRequest hst (app\<lparr>appRoutes := getRoutes (use m rs)\<rparr>) req
           = handleRequest hst (app\<lparr>appRoutes := getRoutes rs\<rparr>) req)"
proof
  assume a: "configAllocated config s"
  then have i: "routerInv (registered config s regs)" by (rule routerInv_registered)
  then have j: "routerInv (addRoute meth p h mws (registered config s regs))"
    by (rule routerInv_addRoute)
  show "let rs = registered config s regs;
          added = \<lparr>method' = meth, path = prefix (fst rs) @ p, handler = h,
                   middlewares = Some (cells (snd rs) (router_middlewares (fst rs)) @ mws)\<rparr>
      in getRoutes (addRoute meth p h mws rs) = getRoutes rs @ [added]
       \<and> getRoutes (use m (addRoute meth p h mws rs)) = getRoutes rs @ [added]
       \<and> getRoutes (use m rs) = getRoutes rs
       \<and> findRoute (getRoutes (use m rs)) meth' p' = findRoute (getRoutes rs) meth' p'
       \<and> handleRequest hst (app\<lparr>appRoutes := getRoutes (use m rs)\<rparr>) req
           = handleRequest hst (app\<lparr>appRoutes := getRoutes rs\<rparr>) req"
    by (simp add: Let_def getRoutes_use[OF i] getRoutes_use[OF j] getRoutes_addRoute[OF i])
qed

theorem use_leaves_registered_routes_witness:
  "getRoutes (use (Return (Data (Plain (JStr ''B''))))
       (addRoute ''GET'' ''/x'' (\<lambda>c. (Inr Undefined, c)) []
          (registered \<lparr>cfg_prefix = None, cfg_middlewares = None\<rparr> \<lparr>cells = (\<lambda>a. []), fresh = 0\<rparr>
             [Use (AwaitNext (\<lambda>a. Return Undefined))])))
   = [\<lparr>method' = ''GET'', path = ''/x'', handler = (\<lambda>c. (Inr Undefined, c)),
       middlewares = Some [AwaitNext (\<lambda>a. Return Undefined)]\<rparr>]"
proof -
  have "configAllocated \<lparr>cfg_prefix = None, cfg_middlewares = None\<rparr> \<lparr>cells = (\<lambda>a. []), fresh = 0\<rparr>"
    by (simp add: configAllocated_def)
  with use_leaves_registered_routes[of "\<lparr>cfg_prefix = None, cfg_middlewares = None\<rparr>"
      "\<lparr>cells = (\<lambda>a. []), fresh = 0\<rparr>" "[Use (AwaitNext (\<lambda>a. Return Undefined))]"
      "''GET''" "''/x''" "(\<lambda>c. (Inr Undefined, c))" "[]" "Return (Data (Plain (JStr ''B'')))"]
  show ?thesis
    by (simp add: Let_def registered_def newRouter_def alloc_def use_def push_def getRoutes_def)
qed

subsection \<open>Responses built from the context\<close>

lemma json_Plain:
  "200 \<le> ctx_status c \<Longrightarrow> ctx_status c \<le> 599 \<Longrightarrow> \<not> nullBodyStatus (ctx_status c) \<Longrightarrow>
   json c (Plain d) None =
     Inr \<lparr>resp_status = ctx_status c,
          resp_headers = (ctx_headers c)(''content-type'' \<mapsto> ''application/json''),
          resp_body = JSON_stringify d\<rparr>"
  by (simp add: json_def newResponse_def)

lemma json_StatusRange:
  "ctx_status c < 200 \<or> 599 < ctx_status c \<Longrightarrow>
   json c (Plain d) None = Inl (HostError (StatusRange (ctx_status c)))"
  by (auto simp: json_def newResponse_def)

lemma handleNotFound_response:
  "handleNotFound c =
     Inr \<lparr>resp_status = 404,
          resp_headers = (ctx_headers c)(''content-type'' \<mapsto> ''application/json''),
          resp_body = JSON_stringify
            (JObj [(''error'', JStr ''Not Found''),
                   (''message'', JStr (''Route '' @ ctx_method c @ '' '' @ ctx_pathname c
                                        @ '' not found''))])\<rparr>"
  by (simp add: handleNotFound_def json_def newResponse_def status_def nullBodyStatus_def)

lemma json_500:
  "json (status c 500) (Plain d) None =
     Inr \<lparr>resp_status = 500,
          resp_headers = (ctx_headers c)(''content-type'' \<mapsto> ''application/json''),
          resp_body = JSON_stringify d\<rparr>"
  by (simp add: json_def newResponse_def status_def nullBodyStatus_def)

text \<open>\<open>handleError\<close> never throws: it always gives a \<^verbatim>\<open>Response\<close>.\<close>

lemma handleError_response: "\<exists>resp out. handleError hst app e c = (Inr resp, out)"
  by (auto simp: handleError_def json_500 split: option.splits sum.splits prod.splits)

lemma handleError_default:
  "errorHandler app = None \<Longrightarrow>
   handleError hst app e c =
     (Inr \<lparr>resp_status = 500,
           resp_headers = (ctx_headers c)(''content-type'' \<mapsto> ''application/json''),
           resp_body = JSON_stringify (errorBody hst (development app) e)\<rparr>,
      [UnhandledError e])"
  by (simp add: handleError_def json_500)


subsection \<open>Requests without a route\<close>

text \<open>
  Claim C9, as amended. When the lookup finds no route, that is when every registered
  route of the request's method is tested and its matching returns \<^verbatim>\<open>null\<close>, the request
  is answered with status 404 and the JSON text of an object that names the method and
  the path. When the lookup throws, because it reaches a pattern that is no regular
  expression, the request is answered by \<^verbatim>\<open>handleError\<close> instead: without an error
  handler, with status 500. This holds for every way \<open>mp\<close> of matching a pattern.
\<close>

theorem not_found_response:
  "((\<forall>q\<in>set (appRoutes app). method' q = req_method req
        \<longrightarrow> mp (path q) (req_pathname req) = Inr None) \<longrightarrow>
      handleRequestBy mp hst app req =
        Some (Inr \<lparr>resp_status = 404,
                   resp_headers = [''content-type'' \<mapsto> ''application/json''],
                   resp_body = JSON_stringify
                     (JObj [(''error'', JStr ''Not Found''),
                            (''message'', JStr (''Route '' @ req_method req @ '' ''
                                                 @ req_pathname req @ '' not found''))])\<rparr>,
              [], []))
   \<and> (findRouteBy mp (appRoutes app) (req_method req) (req_pathname req) = Inl SyntaxError
      \<and> errorHandler app = None \<longrightarrow>
      handleRequestBy mp hst app req =
        Some (Inr \<lparr>resp_status = 500,
                   resp_headers = [''content-type'' \<mapsto> ''application/json''],
                   resp_body = JSON_stringify
                     (errorBody hst (development app) (HostError RegExpSyntax))\<rparr>,
              [UnhandledError (HostError RegExpSyntax)], []))"
proof (intro conjI impI)
  assume "\<forall>q\<in>set (appRoutes app). method' q = req_method req
        \<longrightarrow> mp (path q) (req_pathname req) = Inr None"
  then have "findRouteBy mp (appRoutes app) (req_method req) (req_pathname req) = Inr None"
    by (simp add: findRouteBy_None_iff)
  then show "handleRequestBy mp hst app req =
        Some (Inr \<lparr>resp_status = 404,
                   resp_headers = [''content-type'' \<mapsto> ''application/json''],
                   resp_body = JSON_stringify
                     (JObj [(''error'', JStr ''Not Found''),
                            (''message'', JStr (''Route '' @ req_method req @ '' ''
                                                 @ req_pathname req @ '' not found''))])\<rparr>,
              [], [])"
    by (simp add: handleRequestBy_def newContext_def handleNotFound_response Let_def)
next
  assume "findRouteBy mp (appRoutes app) (req_method req) (req_pathname req) = Inl SyntaxError
      \<and> errorHandler app = None"
  then show "handleRequestBy mp hst app req =
        Some (Inr \<lparr>resp_status = 500,
                   resp_headers = [''content-type'' \<mapsto> ''application/json''],
                   resp_body = JSON_stringify
                     (errorBody hst (development app) (HostError RegExpSyntax))\<rparr>,
              [UnhandledError (HostError RegExpSyntax)], [])"
    by (simp add: handleRequestBy_def newContext_def handleError_default Let_def)
qed

theorem not_found_response_witness:
  "handleRequest exampleHost
       \<lparr>appRoutes = [\<lparr>method' = ''GET'', path = ''/users/:id'',
                         handler = (\<lambda>c. (Inr Undefined, c)), middlewares = Some []\<rparr>],
        globalMiddlewares = [], errorHandler = None, development = True\<rparr>
       \<lparr>req_method = ''GET'', req_pathname = ''/users''\<rparr>
   = Some (Inr \<lparr>resp_status = 404,
                resp_headers = [''content-type'' \<mapsto> ''application/json''],
                resp_body = ''{\"error\":\"Not Found\",\"message\":\"Route GET /users not found\"}''\<rparr>,
           [], [])"
  using not_found_response[of
       "\<lparr>appRoutes = [\<lparr>method' = ''GET'', path = ''/users/:id'',
                         handler = (\<lambda>c. (Inr Undefined, c)), middlewares = Some []\<rparr>],
        globalMiddlewares = [], errorHandler = None, development = True\<rparr>"
       "\<lparr>req_method = ''GET'', req_pathname = ''/users''\<rparr>" matchPath exampleHost]
  by (simp add: handleRequest_def ex_users_short quoteJSONString_def quoteChar_def)

text \<open>
  The claim as stated fails when a route of the request's method has a pattern that is
  no regular expression. With the route \<^verbatim>\<open>/(\<close> registered, the request for
  \<^verbatim>\<open>/missing\<close> matches no route, and the answer has status 500, not 404.
\<close>

theorem not_found_response_counterexample:
  "handleRequest exampleHost
       \<lparr>appRoutes = [\<lparr>method' = ''GET'', path = ''/('',
                         handler = (\<lambda>c. (Inr Undefined, c)), middlewares = Some []\<rparr>],
        globalMiddlewares = [], errorHandler = None, development = True\<rparr>
       \<lparr>req_method = ''GET'', req_pathname = ''/missing''\<rparr>
   = Some (Inr \<lparr>resp_status = 500,
                resp_headers = [''content-type'' \<mapsto> ''application/json''],
                resp_body = ''{\"error\":\"Internal Server Error\",\"message\":\"Invalid regular expression\"}''\<rparr>,
           [UnhandledError (HostError RegExpSyntax)], [])
   \<and> matchPath ''/('' ''/missing'' = Inl SyntaxError"
  by (simp add: handleRequest_def handleRequestBy_def newContext_def ex_unclosed
        handleError_default errorBody_def exampleHost_def quoteJSONString_def quoteChar_def Let_def)


subsection \<open>The chain: fuel, and the equation of \<open>next\<close>\<close>


lemma callMiddleware_cong:
  fixes P :: "chain \<Rightarrow> bool"
  assumes agree: "\<And>s. P s \<Longrightarrow> nx s = nx' s"
    and closed: "\<And>s a s'. P s \<Longrightarrow> nx s = Some (a, s') \<Longrightarrow> P s'"
    and upd: "\<And>s c. P s \<Longrightarrow> P (s\<lparr>the_context := c\<rparr>)"
  shows "P st \<Longrightarrow> callMiddleware nx p st = callMiddleware nx' p st"
proof (induction p arbitrary: st)
  case (AwaitNext k)
  show ?case
  proof (cases "nx st")
    case None
    with agree[OF AwaitNext.prems] show ?thesis by simp
  next
    case (Some r)
    obtain a s' where r: "r = (a, s')" by (cases r)
    from closed[OF AwaitNext.prems] Some r have "P s'" by simp
    moreover from agree[OF AwaitNext.prems] Some r have "nx' st = Some (a, s')" by simp
    ultimately show ?thesis using AwaitNext.IH[OF rangeI, of s' a] Some r by simp
  qed
qed (simp_all add: upd)

lemma callMiddleware_invariant:
  fixes P :: "chain \<Rightarrow> bool"
  assumes closed: "\<And>s a s'. P s \<Longrightarrow> nx s = Some (a, s') \<Longrightarrow> P s'"
    and upd: "\<And>s c. P s \<Longrightarrow> P (s\<lparr>the_context := c\<rparr>)"
  shows "P st \<Longrightarrow> callMiddleware nx p st = Some (res, st') \<Longrightarrow> P st'"
proof (induction p arbitrary: st)
  case (AwaitNext k)
  from AwaitNext.prems(2) obtain a s' where n: "nx st = Some (a, s')"
    and c: "callMiddleware nx (k a) s' = Some (res, st')"
    by (auto split: option.splits)
  from closed[OF AwaitNext.prems(1) n] have "P s'" .
  from AwaitNext.IH[OF rangeI this c] show ?case .
next
  case (Mutate f p)
  from Mutate.prems(1) have "P (st\<lparr>the_context := f (the_context st)\<rparr>)" by (rule upd)
  with Mutate.IH Mutate.prems(2) show ?case by simp
qed auto

lemma callMiddleware_total:
  fixes P :: "chain \<Rightarrow> bool"
  assumes total: "\<And>s. P s \<Longrightarrow> nx s \<noteq> None"
    and closed: "\<And>s a s'. P s \<Longrightarrow> nx s = Some (a, s') \<Longrightarrow> P s'"
    and upd: "\<And>s c. P s \<Longrightarrow> P (s\<lparr>the_context := c\<rparr>)"
  shows "P st \<Longrightarrow> callMiddleware nx p st \<noteq> None"
proof (induction p arbitrary: st)
  case (AwaitNext k)
  from total[OF AwaitNext.prems] obtain a s' where n: "nx st = Some (a, s')" by auto
  from closed[OF AwaitNext.prems n] have "P s'" .
  from AwaitNext.IH[OF rangeI this, of a] n show ?case by simp
qed (simp_all add: upd)

lemma nextFn_index_mono:
  "nextFn fuel mws h st = Some (a, st') \<Longrightarrow> index st \<le> index st'"
proof (induction fuel arbitrary: st a st')
  case 0
  then show ?case by simp
next
  case (Suc fuel)
  show ?case
  proof (cases "index st < length mws")
    case True
    let ?st1 = "st\<lparr>index := Suc (index st), trace := trace st @ [Enter (index st)]\<rparr>"
    from Suc.prems True obtain res s2 where
      c: "callMiddleware (nextFn fuel mws h) (mws ! index st) ?st1 = Some (res, s2)"
      and i: "index st' = index s2"
      by (auto split: option.splits sum.splits jsresult.splits)
    have "Suc (index st) \<le> index s2"
    proof (rule callMiddleware_invariant[where P = "\<lambda>s::chain. Suc (index st) \<le> index s", OF _ _ _ c])
      fix s s' :: chain and a :: settled assume "Suc (index st) \<le> index s" "nextFn fuel mws h s = Some (a, s')"
      with Suc.IH[of s a s'] show "Suc (index st) \<le> index s'" by simp
    qed simp_all
    with i show ?thesis by simp
  next
    case False
    with Suc.prems show ?thesis
      by (auto simp: Let_def split: prod.splits sum.splits jsresult.splits)
  qed
qed

lemma nextFn_more_fuel:
  "length mws - index st < fuel \<Longrightarrow> nextFn (Suc fuel) mws h st = nextFn fuel mws h st"
proof (induction fuel arbitrary: st)
  case 0
  then show ?case by simp
next
  case (Suc fuel)
  show ?case
  proof (cases "index st < length mws")
    case True
    let ?st1 = "st\<lparr>index := Suc (index st), trace := trace st @ [Enter (index st)]\<rparr>"
    have "callMiddleware (nextFn (Suc fuel) mws h) (mws ! index st) ?st1
        = callMiddleware (nextFn fuel mws h) (mws ! index st) ?st1"
    proof (rule callMiddleware_cong[where P = "\<lambda>s::chain. index st < index s"])
      fix s :: chain assume "index st < index s"
      with Suc.prems True have "length mws - index s < fuel" by simp
      then show "nextFn (Suc fuel) mws h s = nextFn fuel mws h s" by (rule Suc.IH)
    next
      fix s s' :: chain and a :: settled assume "index st < index s" "nextFn (Suc fuel) mws h s = Some (a, s')"
      with nextFn_index_mono[of "Suc fuel" mws h s a s'] show "index st < index s'" by simp
    qed simp_all
    then show ?thesis by (simp only: nextFn.simps(2))
  next
    case False
    then show ?thesis by simp
  qed
qed

lemma nextFn_enough_fuel:
  "length mws - index st < fuel \<Longrightarrow> nextFn fuel mws h st = nextCall mws h st"
proof (induction "fuel - Suc (length mws - index st)" arbitrary: fuel)
  case 0
  then have "fuel = Suc (length mws - index st)" by simp
  then show ?case by (simp add: nextCall_def)
next
  case (Suc d)
  then obtain f where f: "fuel = Suc f" by (cases fuel) auto
  with Suc have "length mws - index st < f" "d = f - Suc (length mws - index st)" by simp_all
  with Suc.hyps(1)[of f] nextFn_more_fuel[of mws st f h] f show ?case by simp
qed

lemma nextCall_index_mono: "nextCall mws h st = Some (a, st') \<Longrightarrow> index st \<le> index st'"
  unfolding nextCall_def by (rule nextFn_index_mono)

lemma nextCall_unfold:
  "nextCall mws h st =
     (if index st < length mws then
        (case callMiddleware (nextCall mws h) (mws ! index st)
                (st\<lparr>index := Suc (index st), trace := trace st @ [Enter (index st)]\<rparr>) of
           None \<Rightarrow> None
         | Some (Inl e, st') \<Rightarrow> Some (Rejected e, st')
         | Some (Inr result, st') \<Rightarrow>
             Some (Resolved,
                   (case result of Resp r \<Rightarrow> st'\<lparr>response := Some r\<rparr> | _ \<Rightarrow> st')))
      else
        (case h (the_context st) of
           (Inl e, c) \<Rightarrow> Some (Rejected e, st\<lparr>the_context := c, trace := trace st @ [RunHandler]\<rparr>)
         | (Inr result, c) \<Rightarrow>
             (let st' = st\<lparr>the_context := c, trace := trace st @ [RunHandler]\<rparr> in
              case result of
                Resp r \<Rightarrow> Some (Resolved, st'\<lparr>response := Some r\<rparr>)
              | Undefined \<Rightarrow> Some (Resolved, st')
              | Data d \<Rightarrow>
                  (case json c d None of
                     Inl e \<Rightarrow> Some (Rejected e, st')
                   | Inr r \<Rightarrow> Some (Resolved, st'\<lparr>response := Some r\<rparr>)))))"
proof (cases "index st < length mws")
  case True
  let ?st1 = "st\<lparr>index := Suc (index st), trace := trace st @ [Enter (index st)]\<rparr>"
  have "callMiddleware (nextFn (length mws - index st) mws h) (mws ! index st) ?st1
        = callMiddleware (nextCall mws h) (mws ! index st) ?st1"
  proof (rule callMiddleware_cong[where P = "\<lambda>s::chain. index st < index s"])
    fix s :: chain assume "index st < index s"
    with True have "length mws - index s < length mws - index st" by simp
    then show "nextFn (length mws - index st) mws h s = nextCall mws h s"
      by (rule nextFn_enough_fuel)
  next
    fix s s' :: chain and a :: settled assume "index st < index s" "nextFn (length mws - index st) mws h s = Some (a, s')"
    with nextFn_index_mono[of "length mws - index st" mws h s a s'] show "index st < index s'" by simp
  qed simp_all
  then show ?thesis by (simp add: nextCall_def True)
next
  case False
  then show ?thesis by (simp add: nextCall_def)
qed

lemma nextCall_total: "nextCall mws h st \<noteq> None"
proof (induction "length mws - index st" arbitrary: st rule: less_induct)
  case less
  show ?case
  proof (cases "index st < length mws")
    case True
    let ?st1 = "st\<lparr>index := Suc (index st), trace := trace st @ [Enter (index st)]\<rparr>"
    have "callMiddleware (nextCall mws h) (mws ! index st) ?st1 \<noteq> None"
    proof (rule callMiddleware_total[where P = "\<lambda>s::chain. index st < index s"])
      fix s :: chain assume "index st < index s"
      with True have "length mws - index s < length mws - index st" by simp
      then show "nextCall mws h s \<noteq> None" by (rule less)
    next
      fix s s' :: chain and a :: settled assume "index st < index s" "nextCall mws h s = Some (a, s')"
      with nextCall_index_mono[of mws h s a s'] show "index st < index s'" by simp
    qed simp_all
    then show ?thesis
      by (subst nextCall_unfold) (auto simp: True split: option.splits sum.splits)
  next
    case False
    then show ?thesis
      by (subst nextCall_unfold)
         (auto simp: Let_def split: prod.splits sum.splits jsresult.splits)
  qed
qed

lemma executeMiddlewareChain_nextCall:
  "executeMiddlewareChain c mws h =
     (case nextCall mws h \<lparr>index = 0, response = None, the_context = c, trace = []\<rparr> of
        None \<Rightarrow> None
      | Some (Rejected e, st) \<Rightarrow> Some (Inl e, the_context st, trace st)
      | Some (Resolved, st) \<Rightarrow>
          Some (Inr (case response st of Some r \<Rightarrow> r | None \<Rightarrow> noResponseGenerated),
                the_context st, trace st))"
  by (simp add: executeMiddlewareChain_def nextCall_def)


subsection \<open>The chain: what the shapes of middleware give\<close>


lemma runAlone_callMiddleware:
  "runAlone p (the_context st) = Some (res, c') \<Longrightarrow>
   callMiddleware nx p st = Some (res, st\<lparr>the_context := c'\<rparr>)"
proof (induction p arbitrary: st)
  case (Mutate f p)
  from Mutate.IH[of "st\<lparr>the_context := f (the_context st)\<rparr>"] Mutate.prems
  show ?case by simp
next
  case (Inspect g)
  from Inspect.IH[OF rangeI, of "the_context st" st] Inspect.prems show ?case by simp
qed auto

lemma quiet_runAlone:
  "quiet p \<Longrightarrow> \<exists>v c'. runAlone p c = Some (Inr v, c') \<and> \<not> isResponse v"
proof (induction p arbitrary: c)
  case (Inspect g)
  then have "quiet (g c)" by simp
  from Inspect.IH[OF rangeI this, of c] show ?case by simp
qed auto

lemma nextFree_runAlone: "nextFree p \<Longrightarrow> \<exists>res c'. runAlone p c = Some (res, c')"
proof (induction p arbitrary: c)
  case (Inspect g)
  then have "nextFree (g c)" by simp
  from Inspect.IH[OF rangeI this, of c] show ?case by simp
qed auto

lemma transparent_callMiddleware:
  "transparent p \<Longrightarrow>
   nx (st\<lparr>the_context := ctxAtNext p (the_context st)\<rparr>) = Some (Resolved, st2) \<Longrightarrow>
   \<exists>v c'. callMiddleware nx p st = Some (Inr v, st2\<lparr>the_context := c'\<rparr>) \<and> \<not> isResponse v"
proof (induction p arbitrary: st)
  case (AwaitNext k)
  then have n: "nx st = Some (Resolved, st2)" and q: "quiet (k Resolved)" by simp_all
  from quiet_runAlone[OF q, of "the_context st2"] obtain v c'
    where r: "runAlone (k Resolved) (the_context st2) = Some (Inr v, c')" and v: "\<not> isResponse v"
    by blast
  from runAlone_callMiddleware[OF r, of nx] n v show ?case by auto
next
  case (Mutate f p)
  from Mutate.IH[of "st\<lparr>the_context := f (the_context st)\<rparr>"] Mutate.prems
  show ?case by simp
next
  case (Inspect g)
  then have "transparent (g (the_context st))" by simp
  from Inspect.IH[OF rangeI this, of st] Inspect.prems(2) show ?case by simp
qed auto

lemma awaitsOnce_callMiddleware:
  "awaitsOnce p \<Longrightarrow>
   nx (st\<lparr>the_context := ctxAtNext p (the_context st)\<rparr>) = Some (a, st2) \<Longrightarrow>
   \<exists>res c'. callMiddleware nx p st = Some (res, st2\<lparr>the_context := c'\<rparr>)"
proof (induction p arbitrary: st)
  case (AwaitNext k)
  then have n: "nx st = Some (a, st2)" and q: "nextFree (k a)" by simp_all
  from nextFree_runAlone[OF q, of "the_context st2"] obtain res c'
    where r: "runAlone (k a) (the_context st2) = Some (res, c')"
    by blast
  from runAlone_callMiddleware[OF r, of nx] n show ?case by auto
next
  case (Mutate f p)
  from Mutate.IH[of "st\<lparr>the_context := f (the_context st)\<rparr>"] Mutate.prems
  show ?case by simp
next
  case (Inspect g)
  then have "awaitsOnce (g (the_context st))" by simp
  from Inspect.IH[OF rangeI this, of st] Inspect.prems(2) show ?case by simp
qed auto

text \<open>Middleware that await once: every one is entered, in order, then the handler runs.\<close>

lemma nextCall_awaitsOnce:
  assumes all: "\<forall>p\<in>set mws. awaitsOnce p"
  shows "index st \<le> length mws \<Longrightarrow>
     \<exists>a s'. nextCall mws h st = Some (a, s') \<and> index s' = length mws
       \<and> trace s' = trace st @ map Enter [index st..<length mws] @ [RunHandler]"
proof (induction "length mws - index st" arbitrary: st rule: less_induct)
  case less
  show ?case
  proof (cases "index st < length mws")
    case True
    let ?p = "mws ! index st"
    let ?st1 = "st\<lparr>index := Suc (index st), trace := trace st @ [Enter (index st)]\<rparr>"
    let ?st1' = "?st1\<lparr>the_context := ctxAtNext ?p (the_context ?st1)\<rparr>"
    from True all have p: "awaitsOnce ?p" by simp
    from True have "length mws - index ?st1' < length mws - index st" "index ?st1' \<le> length mws"
      by simp_all
    from less(1)[OF this] obtain a s2 where
      n: "nextCall mws h ?st1' = Some (a, s2)" and i: "index s2 = length mws"
      and t: "trace s2 = trace ?st1' @ map Enter [index ?st1'..<length mws] @ [RunHandler]"
      by blast
    from awaitsOnce_callMiddleware[where p = ?p and nx = "nextCall mws h" and st = ?st1, OF p n]
    obtain res c' where
      c: "callMiddleware (nextCall mws h) ?p ?st1 = Some (res, s2\<lparr>the_context := c'\<rparr>)"
      by blast
    from True have u: "[index st..<length mws] = index st # [Suc (index st)..<length mws]"
      by (simp add: upt_conv_Cons)
    from c i t True show ?thesis
      by (subst nextCall_unfold) (auto simp: u split: sum.splits jsresult.splits)
  next
    case False
    with less.prems have "index st = length mws" by simp
    then show ?thesis
      by (subst nextCall_unfold)
         (auto simp: Let_def split: prod.splits sum.splits jsresult.splits)
  qed
qed

lemma executeMiddlewareChain_awaitsOnce:
  assumes "\<forall>p\<in>set mws. awaitsOnce p"
  shows "\<exists>res c'. executeMiddlewareChain c mws h
           = Some (res, c', map Enter [0..<length mws] @ [RunHandler])"
proof -
  from nextCall_awaitsOnce[OF assms, of "\<lparr>index = 0, response = None, the_context = c, trace = []\<rparr>" h]
  obtain a s' where "nextCall mws h \<lparr>index = 0, response = None, the_context = c, trace = []\<rparr> = Some (a, s')"
    and "trace s' = map Enter [0..<length mws] @ [RunHandler]"
    by auto
  then show ?thesis
    by (cases a) (simp_all add: executeMiddlewareChain_nextCall)
qed

text \<open>A prefix of transparent middleware passes the call on and returns what comes back.\<close>

lemma nextCall_transparent_prefix:
  assumes all: "\<forall>p\<in>set pre. transparent p"
  shows "index st \<le> length pre \<Longrightarrow>
     nextCall (pre @ rest) h
        (st\<lparr>index := length pre,
            trace := trace st @ map Enter [index st..<length pre],
            the_context := foldl (\<lambda>c p. ctxAtNext p c) (the_context st) (drop (index st) pre)\<rparr>)
       = Some (Resolved, st2) \<Longrightarrow>
     \<exists>c'. nextCall (pre @ rest) h st = Some (Resolved, st2\<lparr>the_context := c'\<rparr>)"
proof (induction "length pre - index st" arbitrary: st st2 rule: less_induct)
  case less
  show ?case
  proof (cases "index st < length pre")
    case True
    let ?mws = "pre @ rest"
    let ?p = "pre ! index st"
    let ?st1 = "st\<lparr>index := Suc (index st), trace := trace st @ [Enter (index st)]\<rparr>"
    let ?st1' = "?st1\<lparr>the_context := ctxAtNext ?p (the_context ?st1)\<rparr>"
    from True all have p: "transparent ?p" by simp
    from True have d: "drop (index st) pre = ?p # drop (Suc (index st)) pre"
      by (simp add: Cons_nth_drop_Suc)
    from True have u: "[index st..<length pre] = index st # [Suc (index st)..<length pre]"
      by (simp add: upt_conv_Cons)
    have e: "?st1'\<lparr>index := length pre,
            trace := trace ?st1' @ map Enter [index ?st1'..<length pre],
            the_context := foldl (\<lambda>c p. ctxAtNext p c) (the_context ?st1') (drop (index ?st1') pre)\<rparr>
        = st\<lparr>index := length pre,
            trace := trace st @ map Enter [index st..<length pre],
            the_context := foldl (\<lambda>c p. ctxAtNext p c) (the_context st) (drop (index st) pre)\<rparr>"
      by (simp add: d u)
    from True have "length pre - index ?st1' < length pre - index st" "index ?st1' \<le> length pre"
      by simp_all
    from less(1)[OF this, of st2] less.prems(2) e obtain c1 where
      n: "nextCall ?mws h ?st1' = Some (Resolved, st2\<lparr>the_context := c1\<rparr>)"
      by auto
    from transparent_callMiddleware[where p = ?p and nx = "nextCall ?mws h" and st = ?st1, OF p n]
    obtain v c' where
      c: "callMiddleware (nextCall ?mws h) ?p ?st1 = Some (Inr v, st2\<lparr>the_context := c'\<rparr>)"
      and v: "\<not> isResponse v"
      by auto
    from True have m: "?mws ! index st = ?p" "index st < length ?mws"
      by (simp_all add: nth_append)
    from v have w: "(case v of Resp r \<Rightarrow> st2\<lparr>the_context := c', response := Some r\<rparr>
                     | _ \<Rightarrow> st2\<lparr>the_context := c'\<rparr>) = st2\<lparr>the_context := c'\<rparr>"
      by (cases v) simp_all
    from c m w have "nextCall ?mws h st = Some (Resolved, st2\<lparr>the_context := c'\<rparr>)"
      by (subst nextCall_unfold) simp
    then show ?thesis by blast
  next
    case False
    with less.prems(1) have i: "index st = length pre" by simp
    then have "st\<lparr>index := length pre\<rparr> = st" by simp
    with less.prems(2) i have "nextCall (pre @ rest) h st = Some (Resolved, st2)"
      by simp
    then have "nextCall (pre @ rest) h st = Some (Resolved, st2\<lparr>the_context := the_context st2\<rparr>)"
      by simp
    then show ?thesis by blast
  qed
qed


text \<open>A prefix of passing middleware lets the rejection through.\<close>

lemma raises_runAlone: "raises e p \<Longrightarrow> \<exists>c'. runAlone p c = Some (Inl e, c')"
proof (induction p arbitrary: c)
  case (Inspect g)
  then have "raises e (g c)" by simp
  from Inspect.IH[OF rangeI this, of c] show ?case by simp
qed auto

lemma passing_callMiddleware:
  "passing p \<Longrightarrow>
   nx (st\<lparr>the_context := ctxAtNext p (the_context st)\<rparr>) = Some (Rejected e, st2) \<Longrightarrow>
   \<exists>c'. callMiddleware nx p st = Some (Inl e, st2\<lparr>the_context := c'\<rparr>)"
proof (induction p arbitrary: st)
  case (AwaitNext k)
  then have n: "nx st = Some (Rejected e, st2)" and q: "raises e (k (Rejected e))" by simp_all
  from raises_runAlone[OF q, of "the_context st2"] obtain c'
    where r: "runAlone (k (Rejected e)) (the_context st2) = Some (Inl e, c')"
    by blast
  from runAlone_callMiddleware[OF r, of nx] n show ?case by auto
next
  case (Mutate f p)
  from Mutate.IH[of "st\<lparr>the_context := f (the_context st)\<rparr>"] Mutate.prems
  show ?case by simp
next
  case (Inspect g)
  then have "passing (g (the_context st))" by simp
  from Inspect.IH[OF rangeI this, of st] Inspect.prems(2) show ?case by simp
qed auto

lemma nextCall_passing_prefix:
  assumes all: "\<forall>p\<in>set pre. passing p"
  shows "index st \<le> length pre \<Longrightarrow>
     nextCall (pre @ rest) h
        (st\<lparr>index := length pre,
            trace := trace st @ map Enter [index st..<length pre],
            the_context := foldl (\<lambda>c p. ctxAtNext p c) (the_context st) (drop (index st) pre)\<rparr>)
       = Some (Rejected e, st2) \<Longrightarrow>
     \<exists>c'. nextCall (pre @ rest) h st = Some (Rejected e, st2\<lparr>the_context := c'\<rparr>)"
proof (induction "length pre - index st" arbitrary: st st2 rule: less_induct)
  case less
  show ?case
  proof (cases "index st < length pre")
    case True
    let ?mws = "pre @ rest"
    let ?p = "pre ! index st"
    let ?st1 = "st\<lparr>index := Suc (index st), trace := trace st @ [Enter (index st)]\<rparr>"
    let ?st1' = "?st1\<lparr>the_context := ctxAtNext ?p (the_context ?st1)\<rparr>"
    from True all have p: "passing ?p" by simp
    from True have d: "drop (index st) pre = ?p # drop (Suc (index st)) pre"
      by (simp add: Cons_nth_drop_Suc)
    from True have u: "[index st..<length pre] = index st # [Suc (index st)..<length pre]"
      by (simp add: upt_conv_Cons)
    have e: "?st1'\<lparr>index := length pre,
            trace := trace ?st1' @ map Enter [index ?st1'..<length pre],
            the_context := foldl (\<lambda>c p. ctxAtNext p c) (the_context ?st1') (drop (index ?st1') pre)\<rparr>
        = st\<lparr>index := length pre,
            trace := trace st @ map Enter [index st..<length pre],
            the_context := foldl (\<lambda>c p. ctxAtNext p c) (the_context st) (drop (index st) pre)\<rparr>"
      by (simp add: d u)
    from True have "length pre - index ?st1' < length pre - index st" "index ?st1' \<le> length pre"
      by simp_all
    from less(1)[OF this, of st2] less.prems(2) e obtain c1 where
      n: "nextCall ?mws h ?st1' = Some (Rejected e, st2\<lparr>the_context := c1\<rparr>)"
      by auto
    from passing_callMiddleware[where p = ?p and nx = "nextCall ?mws h" and st = ?st1, OF p n]
    obtain c' where
      c: "callMiddleware (nextCall ?mws h) ?p ?st1 = Some (Inl e, st2\<lparr>the_context := c'\<rparr>)"
      by auto
    from True have m: "?mws ! index st = ?p" "index st < length ?mws"
      by (simp_all add: nth_append)
    from c m have "nextCall ?mws h st = Some (Rejected e, st2\<lparr>the_context := c'\<rparr>)"
      by (subst nextCall_unfold) simp
    then show ?thesis by blast
  next
    case False
    with less.prems(1) have i: "index st = length pre" by simp
    then have "st\<lparr>index := length pre\<rparr> = st" by simp
    with less.prems(2) i have "nextCall (pre @ rest) h st = Some (Rejected e, st2)"
      by simp
    then have "nextCall (pre @ rest) h st = Some (Rejected e, st2\<lparr>the_context := the_context st2\<rparr>)"
      by simp
    then show ?thesis by blast
  qed
qed

text \<open>What is thrown behind a prefix of passing middleware leaves the chain.\<close>

lemma executeMiddlewareChain_passing_prefix:
  assumes all: "\<forall>p\<in>set pre. passing p"
    and n: "nextCall (pre @ rest) h
              \<lparr>index = length pre, response = None,
               the_context = foldl (\<lambda>x p. ctxAtNext p x) c pre,
               trace = map Enter [0..<length pre]\<rparr>
            = Some (Rejected e, st2)"
  shows "\<exists>c'. executeMiddlewareChain c (pre @ rest) h = Some (Inl e, c', trace st2)"
proof -
  let ?ini = "\<lparr>index = 0, response = None, the_context = c, trace = []\<rparr>"
  from n have "nextCall (pre @ rest) h
        (?ini\<lparr>index := length pre,
            trace := trace ?ini @ map Enter [index ?ini..<length pre],
            the_context := foldl (\<lambda>c p. ctxAtNext p c) (the_context ?ini) (drop (index ?ini) pre)\<rparr>)
       = Some (Rejected e, st2)" by simp
  with nextCall_passing_prefix[of pre ?ini rest h e st2] all
  obtain c' where "nextCall (pre @ rest) h ?ini = Some (Rejected e, st2\<lparr>the_context := c'\<rparr>)"
    by auto
  then have "executeMiddlewareChain c (pre @ rest) h = Some (Inl e, c', trace st2)"
    by (simp add: executeMiddlewareChain_nextCall)
  then show ?thesis by blast
qed

lemma executeMiddlewareChain_passing:
  assumes all: "\<forall>p\<in>set mws. passing p"
    and n: "nextCall mws h
              \<lparr>index = length mws, response = None,
               the_context = foldl (\<lambda>x p. ctxAtNext p x) c mws,
               trace = map Enter [0..<length mws]\<rparr>
            = Some (Rejected e, st2)"
  shows "\<exists>c'. executeMiddlewareChain c mws h = Some (Inl e, c', trace st2)"
  using executeMiddlewareChain_passing_prefix[of mws "[]" h c e st2] assms by simp


subsection \<open>The chain: the default response\<close>


lemma executeMiddlewareChain_total: "executeMiddlewareChain c mws h \<noteq> None"
  using nextCall_total[of mws h "\<lparr>index = 0, response = None, the_context = c, trace = []\<rparr>"]
  by (auto simp: executeMiddlewareChain_nextCall split: option.splits settled.splits)

lemma noResponse_callMiddleware:
  "noResponse p \<Longrightarrow> callMiddleware nx p st = Some (Inr v, st') \<Longrightarrow> \<not> isResponse v"
proof (induction p arbitrary: st)
  case (AwaitNext k)
  from AwaitNext.prems(2) obtain a s' where c: "callMiddleware nx (k a) s' = Some (Inr v, st')"
    by (auto split: option.splits)
  from AwaitNext.prems(1) have "noResponse (k a)" by simp
  from AwaitNext.IH[OF rangeI this c] show ?case .
next
  case (Inspect g)
  then have "noResponse (g (the_context st))" by simp
  from Inspect.IH[OF rangeI this] Inspect.prems(2) show ?case by simp
qed auto

lemma nextCall_noResponse:
  assumes all: "\<forall>p\<in>set mws. noResponse p"
    and h: "\<forall>x v. fst (h x) = Inr v \<longrightarrow> v = Undefined"
  shows "response st = None \<Longrightarrow> nextCall mws h st = Some (a, st') \<Longrightarrow> response st' = None"
proof (induction "length mws - index st" arbitrary: st a st' rule: less_induct)
  case less
  show ?case
  proof (cases "index st < length mws")
    case True
    let ?p = "mws ! index st"
    let ?st1 = "st\<lparr>index := Suc (index st), trace := trace st @ [Enter (index st)]\<rparr>"
    from True all have p: "noResponse ?p" by simp
    from less.prems(2) True obtain res s2 where
      c: "callMiddleware (nextCall mws h) ?p ?st1 = Some (res, s2)"
      and r: "(a, st') = (case res of Inl e \<Rightarrow> (Rejected e, s2)
                | Inr result \<Rightarrow> (Resolved, case result of Resp r \<Rightarrow> s2\<lparr>response := Some r\<rparr> | _ \<Rightarrow> s2))"
      by (subst (asm) nextCall_unfold) (auto split: option.splits sum.splits)
    have "index st < index s2 \<and> response s2 = None"
    proof (rule callMiddleware_invariant[where P = "\<lambda>s::chain. index st < index s \<and> response s = None", OF _ _ _ c])
      fix s s' :: chain and a :: settled
      assume s: "index st < index s \<and> response s = None" and n: "nextCall mws h s = Some (a, s')"
      from s True have "length mws - index s < length mws - index st" by linarith
      from less(1)[OF this _ n] s have "response s' = None" by simp
      with nextCall_index_mono[OF n] s show "index st < index s' \<and> response s' = None" by simp
    qed (simp_all add: less.prems(1))
    then have s2: "response s2 = None" by simp
    show ?thesis
    proof (cases res)
      case (Inl e)
      with r s2 show ?thesis by simp
    next
      case (Inr v)
      with c noResponse_callMiddleware[OF p] have "\<not> isResponse v" by blast
      with r s2 Inr show ?thesis by (cases v) simp_all
    qed
  next
    case False
    obtain res cx where hx: "h (the_context st) = (res, cx)" by (cases "h (the_context st)")
    with h have "\<And>v. res = Inr v \<Longrightarrow> v = Undefined"
      by (metis fst_conv)
    with less.prems False hx show ?thesis
      by (subst (asm) nextCall_unfold) (auto simp: Let_def split: sum.splits)
  qed
qed

text \<open>Peaceful middleware and a handler that returns \<^verbatim>\<open>undefined\<close> leave no response.\<close>

lemma peaceful_callMiddleware:
  fixes P :: "chain \<Rightarrow> bool"
  assumes nx: "\<And>s. P s \<Longrightarrow> \<exists>s'. nx s = Some (Resolved, s') \<and> P s'"
    and upd: "\<And>s c. P s \<Longrightarrow> P (s\<lparr>the_context := c\<rparr>)"
  shows "peaceful p \<Longrightarrow> P st \<Longrightarrow>
     \<exists>v st'. callMiddleware nx p st = Some (Inr v, st') \<and> \<not> isResponse v \<and> P st'"
proof (induction p arbitrary: st)
  case (AwaitNext k)
  from nx[OF AwaitNext.prems(2)] obtain s' where n: "nx st = Some (Resolved, s')" and s': "P s'"
    by blast
  from AwaitNext.prems(1) have "peaceful (k Resolved)" by simp
  from AwaitNext.IH[OF rangeI this s'] n show ?case by simp
next
  case (Mutate f p)
  from Mutate.prems(2) have "P (st\<lparr>the_context := f (the_context st)\<rparr>)" by (rule upd)
  with Mutate.IH Mutate.prems(1) show ?case by simp
next
  case (Inspect g)
  then have "peaceful (g (the_context st))" by simp
  from Inspect.IH[OF rangeI this Inspect.prems(2)] show ?case by simp
qed auto

lemma nextCall_peaceful:
  assumes all: "\<forall>p\<in>set mws. peaceful p"
    and h: "\<forall>x. fst (h x) = Inr Undefined"
  shows "\<exists>st'. nextCall mws h st = Some (Resolved, st') \<and> response st' = response st"
proof (induction "length mws - index st" arbitrary: st rule: less_induct)
  case less
  show ?case
  proof (cases "index st < length mws")
    case True
    let ?p = "mws ! index st"
    let ?st1 = "st\<lparr>index := Suc (index st), trace := trace st @ [Enter (index st)]\<rparr>"
    from True all have p: "peaceful ?p" by simp
    have "\<exists>v st'. callMiddleware (nextCall mws h) ?p ?st1 = Some (Inr v, st') \<and> \<not> isResponse v
            \<and> (index st < index st' \<and> response st' = response st)"
    proof (rule peaceful_callMiddleware[where
          P = "\<lambda>s::chain. index st < index s \<and> response s = response st", OF _ _ p])
      fix s :: chain
      assume s: "index st < index s \<and> response s = response st"
      with True have "length mws - index s < length mws - index st" by linarith
      from less[OF this] obtain s' where
        n: "nextCall mws h s = Some (Resolved, s')" and r: "response s' = response s" by blast
      from nextCall_index_mono[OF n] s r
      show "\<exists>s'. nextCall mws h s = Some (Resolved, s')
              \<and> (index st < index s' \<and> response s' = response st)"
        using n by simp
    qed simp_all
    then obtain v st' where
      c: "callMiddleware (nextCall mws h) ?p ?st1 = Some (Inr v, st')" and v: "\<not> isResponse v"
      and r: "response st' = response st" by blast
    from v have "(case v of Resp r \<Rightarrow> st'\<lparr>response := Some r\<rparr> | _ \<Rightarrow> st') = st'"
      by (cases v) simp_all
    with c True have "nextCall mws h st = Some (Resolved, st')"
      by (subst nextCall_unfold) simp
    with r show ?thesis by simp
  next
    case False
    obtain res cx where hx: "h (the_context st) = (res, cx)" by (cases "h (the_context st)")
    with h have "res = Inr Undefined" by (metis fst_conv)
    with False hx show ?thesis by (subst nextCall_unfold) simp
  qed
qed

text \<open>
  Claim C7, as amended. When no middleware ever returns a \<^verbatim>\<open>Response\<close> and the handler
  returns \<^verbatim>\<open>undefined\<close> whenever it returns, the outcome of the chain is either the
  \<^verbatim>\<open>Response\<close> of status 500 and text \<^verbatim>\<open>No response generated\<close> or an exception. It
  is that \<^verbatim>\<open>Response\<close> whenever nothing throws: every middleware returns without
  throwing and without a \<^verbatim>\<open>Response\<close> as long as its \<^verbatim>\<open>next()\<close> resolves, and the
  handler returns \<^verbatim>\<open>undefined\<close>. The result is not always a \<^verbatim>\<open>Response\<close>: when the
  handler throws and every middleware awaits \<^verbatim>\<open>next()\<close> outside any \<^verbatim>\<open>try\<close>, the
  exception of the handler leaves the chain; and so does the exception of a middleware
  that throws without awaiting \<^verbatim>\<open>next()\<close>, when every middleware before it awaits
  \<^verbatim>\<open>next()\<close> outside any \<^verbatim>\<open>try\<close>.
\<close>

theorem chain_default_response:
  "((\<forall>p\<in>set mws. peaceful p) \<and> (\<forall>x. fst (h x) = Inr Undefined)
      \<longrightarrow> (\<exists>c' tr. executeMiddlewareChain c mws h =
             Some (Inr \<lparr>resp_status = 500, resp_headers = Map.empty,
                        resp_body = ''No response generated''\<rparr>, c', tr)))
   \<and> ((\<forall>p\<in>set mws. noResponse p) \<and> (\<forall>x v. fst (h x) = Inr v \<longrightarrow> v = Undefined)
      \<longrightarrow> (\<exists>c' tr. executeMiddlewareChain c mws h =
             Some (Inr \<lparr>resp_status = 500, resp_headers = Map.empty,
                        resp_body = ''No response generated''\<rparr>, c', tr))
        \<or> (\<exists>e c' tr. executeMiddlewareChain c mws h = Some (Inl e, c', tr)))
   \<and> ((\<forall>p\<in>set mws. passing p) \<and> h (foldl (\<lambda>x p. ctxAtNext p x) c mws) = (Inl e, ch)
      \<longrightarrow> (\<exists>c'. executeMiddlewareChain c mws h =
             Some (Inl e, c', map Enter [0..<length mws] @ [RunHandler])))
   \<and> ((\<forall>p\<in>set pre. passing p)
       \<and> runAlone b (foldl (\<lambda>x p. ctxAtNext p x) c pre) = Some (Inl e, cb)
      \<longrightarrow> (\<exists>c'. executeMiddlewareChain c (pre @ b # post) h =
             Some (Inl e, c', map Enter [0..<Suc (length pre)])))"
proof (intro conjI impI)
  let ?ini = "\<lparr>index = 0, response = None, the_context = c, trace = []\<rparr>"
  assume "(\<forall>p\<in>set mws. peaceful p) \<and> (\<forall>x. fst (h x) = Inr Undefined)"
  then have "\<forall>p\<in>set mws. peaceful p" "\<forall>x. fst (h x) = Inr Undefined" by simp_all
  from nextCall_peaceful[OF this, of ?ini] obtain st' where
    "nextCall mws h ?ini = Some (Resolved, st')" "response st' = None" by auto
  then have "executeMiddlewareChain c mws h =
      Some (Inr \<lparr>resp_status = 500, resp_headers = Map.empty,
                 resp_body = ''No response generated''\<rparr>, the_context st', trace st')"
    by (simp add: executeMiddlewareChain_nextCall noResponseGenerated_def)
  then show "\<exists>c' tr. executeMiddlewareChain c mws h =
      Some (Inr \<lparr>resp_status = 500, resp_headers = Map.empty,
                 resp_body = ''No response generated''\<rparr>, c', tr)" by blast
next
  let ?ini = "\<lparr>index = 0, response = None, the_context = c, trace = []\<rparr>"
  assume a: "(\<forall>p\<in>set mws. noResponse p) \<and> (\<forall>x v. fst (h x) = Inr v \<longrightarrow> v = Undefined)"
  from nextCall_total[of mws h ?ini] obtain a' st where n: "nextCall mws h ?ini = Some (a', st)"
    by auto
  from a have "\<forall>p\<in>set mws. noResponse p" "\<forall>x v. fst (h x) = Inr v \<longrightarrow> v = Undefined"
    by simp_all
  from nextCall_noResponse[OF this _ n] have r: "response st = None" by simp
  show "(\<exists>c' tr. executeMiddlewareChain c mws h =
             Some (Inr \<lparr>resp_status = 500, resp_headers = Map.empty,
                        resp_body = ''No response generated''\<rparr>, c', tr))
        \<or> (\<exists>e c' tr. executeMiddlewareChain c mws h = Some (Inl e, c', tr))"
  proof (cases a')
    case Resolved
    with n r have "executeMiddlewareChain c mws h =
        Some (Inr \<lparr>resp_status = 500, resp_headers = Map.empty,
                   resp_body = ''No response generated''\<rparr>, the_context st, trace st)"
      by (simp add: executeMiddlewareChain_nextCall noResponseGenerated_def)
    then show ?thesis by blast
  next
    case (Rejected x)
    with n have "executeMiddlewareChain c mws h = Some (Inl x, the_context st, trace st)"
      by (simp add: executeMiddlewareChain_nextCall)
    then show ?thesis by blast
  qed
next
  assume a: "(\<forall>p\<in>set mws. passing p) \<and> h (foldl (\<lambda>x p. ctxAtNext p x) c mws) = (Inl e, ch)"
  let ?st = "\<lparr>index = length mws, response = None,
              the_context = foldl (\<lambda>x p. ctxAtNext p x) c mws,
              trace = map Enter [0..<length mws]\<rparr>"
  from a have "nextCall mws h ?st
      = Some (Rejected e, ?st\<lparr>the_context := ch, trace := trace ?st @ [RunHandler]\<rparr>)"
    by (subst nextCall_unfold) simp
  from executeMiddlewareChain_passing[OF _ this] a
  show "\<exists>c'. executeMiddlewareChain c mws h =
             Some (Inl e, c', map Enter [0..<length mws] @ [RunHandler])" by simp
next
  assume a: "(\<forall>p\<in>set pre. passing p)
       \<and> runAlone b (foldl (\<lambda>x p. ctxAtNext p x) c pre) = Some (Inl e, cb)"
  let ?st = "\<lparr>index = length pre, response = None,
              the_context = foldl (\<lambda>x p. ctxAtNext p x) c pre,
              trace = map Enter [0..<length pre]\<rparr>"
  let ?sta = "?st\<lparr>index := Suc (index ?st), trace := trace ?st @ [Enter (index ?st)]\<rparr>"
  from a have "runAlone b (the_context ?sta) = Some (Inl e, cb)" by simp
  from runAlone_callMiddleware[OF this, of "nextCall (pre @ b # post) h"]
  have "callMiddleware (nextCall (pre @ b # post) h) b ?sta
          = Some (Inl e, ?sta\<lparr>the_context := cb\<rparr>)" .
  then have "nextCall (pre @ b # post) h ?st = Some (Rejected e, ?sta\<lparr>the_context := cb\<rparr>)"
    by (subst nextCall_unfold) simp
  from executeMiddlewareChain_passing_prefix[OF _ this] a
  show "\<exists>c'. executeMiddlewareChain c (pre @ b # post) h =
             Some (Inl e, c', map Enter [0..<Suc (length pre)])" by simp
qed

theorem chain_default_response_witness:
  "(case executeMiddlewareChain exampleContext
          [marking ''A'', AwaitNext (\<lambda>a. Return Undefined)] (\<lambda>c. (Inr Undefined, c)) of
      Some (res, c', tr) \<Rightarrow>
        res = Inr \<lparr>resp_status = 500, resp_headers = Map.empty,
                   resp_body = ''No response generated''\<rparr>
    | None \<Rightarrow> False)
   \<and> (case executeMiddlewareChain exampleContext [marking ''A''] (throwing ''boom'') of
      Some (res, c', tr) \<Rightarrow> res = Inl (JsError ''boom'' None) \<and> tr = [Enter 0, RunHandler]
    | None \<Rightarrow> False)"
proof (rule conjI)
  have "(\<forall>p\<in>set [marking ''A'']. passing p)
      \<and> throwing ''boom'' (foldl (\<lambda>x p. ctxAtNext p x) exampleContext [marking ''A''])
        = (Inl (JsError ''boom'' None), foldl (\<lambda>x p. ctxAtNext p x) exampleContext [marking ''A''])"
    by (simp add: marking_def throwing_def)
  from chain_default_response[where mws = "[marking ''A'']" and h = "throwing ''boom''"
      and c = exampleContext and e = "JsError ''boom'' None"
      and ch = "foldl (\<lambda>x p. ctxAtNext p x) exampleContext [marking ''A'']",
      THEN conjunct2, THEN conjunct2, THEN conjunct1, THEN mp, OF this]
  obtain c' where
    "executeMiddlewareChain exampleContext [marking ''A''] (throwing ''boom'')
      = Some (Inl (JsError ''boom'' None), c', map Enter [0..<length [marking ''A'']] @ [RunHandler])"
    by blast
  then show "(case executeMiddlewareChain exampleContext [marking ''A''] (throwing ''boom'') of
      Some (res, c', tr) \<Rightarrow> res = Inl (JsError ''boom'' None) \<and> tr = [Enter 0, RunHandler]
    | None \<Rightarrow> False)" by simp
next
  have "(\<forall>p\<in>set [marking ''A'', AwaitNext (\<lambda>a. Return Undefined)]. peaceful p)
      \<and> (\<forall>x. fst ((\<lambda>c. (Inr Undefined, c)) x) = Inr Undefined)"
    by (simp add: marking_def)
  from chain_default_response[where mws = "[marking ''A'', AwaitNext (\<lambda>a. Return Undefined)]"
      and h = "(\<lambda>c. (Inr Undefined, c))" and c = exampleContext, THEN conjunct1, THEN mp,
      OF this]
  obtain c' tr where
    "executeMiddlewareChain exampleContext
        [marking ''A'', AwaitNext (\<lambda>a. Return Undefined)] (\<lambda>c. (Inr Undefined, c))
      = Some (Inr \<lparr>resp_status = 500, resp_headers = Map.empty,
                   resp_body = ''No response generated''\<rparr>, c', tr)"
    by blast
  then show "(case executeMiddlewareChain exampleContext
          [marking ''A'', AwaitNext (\<lambda>a. Return Undefined)] (\<lambda>c. (Inr Undefined, c)) of
      Some (res, c', tr) \<Rightarrow>
        res = Inr \<lparr>resp_status = 500, resp_headers = Map.empty,
                   resp_body = ''No response generated''\<rparr>
    | None \<Rightarrow> False)" by simp
qed

text \<open>
  The claim as stated fails when the handler throws: nothing produced a
  \<^verbatim>\<open>Response\<close>, and the chain ends with the exception instead of a \<^verbatim>\<open>Response\<close>.
\<close>

theorem chain_default_response_counterexample:
  "executeMiddlewareChain (newContext \<lparr>req_method = ''GET'', req_pathname = ''/''\<rparr>)
      [] (\<lambda>c. (Inl (JsError ''boom'' None), c))
   = Some (Inl (JsError ''boom'' None),
           newContext \<lparr>req_method = ''GET'', req_pathname = ''/''\<rparr>, [RunHandler])"
  by (simp add: executeMiddlewareChain_def)


subsection \<open>The chain and the dispatcher: the claims\<close>

text \<open>Evaluations used by the concrete runs.\<close>

lemma matchPath_root: "matchPath ''/'' ''/'' = Inr (Some Map.empty)"
proof -
  have a: "replaceParams ''/'' = (''/'', [])" by code_simp
  have b: "newRegExp (''^'' @ replaceStars ''/'' @ ''$'') = Inr (projr (newRegExp ''^/$''))"
    by code_simp
  have c: "stringMatch ''/'' (projr (newRegExp ''^/$'')) = Some [Some ''/'']" by code_simp
  show ?thesis by (simp add: matchPath_eval[OF a b] c)
qed

lemma transparent_marking: "transparent (marking n)" "awaitsOnce (marking n)"
  by (auto simp: marking_def split: settled.splits)

text \<open>
  Claim C4. For a matched request \<open>handleRequest\<close> runs the chain on the global
  middleware followed by the middleware of the matched route. The chain enters the
  middleware of its list in the order of the list: when each of them awaits \<^verbatim>\<open>next()\<close>
  once (none short-circuits), the trace is the indices \<open>0, 1, ...\<close> of the whole list in
  order and then the handler, and the request is answered with a \<^verbatim>\<open>Response\<close>. With
  global middleware \<open>[A, B]\<close> and route middleware \<open>[C]\<close> the order is \<open>A, B, C\<close>,
  handler. This holds for every way \<open>mp\<close> of matching a pattern, and so for
  \<open>handleRequest\<close> on every pattern.
\<close>

theorem middleware_order:
  "findRouteBy mp (appRoutes app) (req_method req) (req_pathname req) = Inr (Some (r, ps)) \<longrightarrow>
     handleRequestBy mp hst app req =
       (case executeMiddlewareChain ((newContext req)\<lparr>ctx_params := ps\<rparr>)
               (globalMiddlewares app @ (case middlewares r of None \<Rightarrow> [] | Some ms \<Rightarrow> ms))
               (handler r) of
          None \<Rightarrow> None
        | Some (Inr resp, c', tr) \<Rightarrow> Some (Inr resp, [], tr)
        | Some (Inl e, c', tr) \<Rightarrow>
            (case handleError hst app e c' of (res, out) \<Rightarrow> Some (res, out, tr)))
     \<and> ((\<forall>p\<in>set (globalMiddlewares app @ (case middlewares r of None \<Rightarrow> [] | Some ms \<Rightarrow> ms)).
            awaitsOnce p)
        \<longrightarrow> (\<exists>resp out. handleRequestBy mp hst app req =
              Some (Inr resp, out,
                    map Enter [0..<length (globalMiddlewares app
                                           @ (case middlewares r of None \<Rightarrow> [] | Some ms \<Rightarrow> ms))]
                    @ [RunHandler])))"
proof (intro impI conjI)
  assume f: "findRouteBy mp (appRoutes app) (req_method req) (req_pathname req)
               = Inr (Some (r, ps))"
  let ?mws = "globalMiddlewares app @ (case middlewares r of None \<Rightarrow> [] | Some ms \<Rightarrow> ms)"
  let ?c = "(newContext req)\<lparr>ctx_params := ps\<rparr>"
  from f show eq: "handleRequestBy mp hst app req =
       (case executeMiddlewareChain ?c ?mws (handler r) of
          None \<Rightarrow> None
        | Some (Inr resp, c', tr) \<Rightarrow> Some (Inr resp, [], tr)
        | Some (Inl e, c', tr) \<Rightarrow>
            (case handleError hst app e c' of (res, out) \<Rightarrow> Some (res, out, tr)))"
    by (simp add: handleRequestBy_def newContext_def Let_def)
  assume "\<forall>p\<in>set ?mws. awaitsOnce p"
  from executeMiddlewareChain_awaitsOnce[OF this, of ?c "handler r"] obtain res c' where
    x: "executeMiddlewareChain ?c ?mws (handler r)
       = Some (res, c', map Enter [0..<length ?mws] @ [RunHandler])" by blast
  show "\<exists>resp out. handleRequestBy mp hst app req =
              Some (Inr resp, out, map Enter [0..<length ?mws] @ [RunHandler])"
  proof (cases res)
    case (Inr resp)
    with eq x show ?thesis by simp
  next
    case (Inl e)
    from handleError_response[of hst app e c'] obtain resp out where
      "handleError hst app e c' = (Inr resp, out)" by blast
    with eq x Inl show ?thesis by simp
  qed
qed

theorem middleware_order_witness:
  "handleRequest exampleHost
     \<lparr>appRoutes = [\<lparr>method' = ''GET'', path = ''/'', handler = orderHandler,
                       middlewares = Some [marking ''C'']\<rparr>],
      globalMiddlewares = [marking ''A'', marking ''B''], errorHandler = None,
      development = True\<rparr>
     \<lparr>req_method = ''GET'', req_pathname = ''/''\<rparr>
   = Some (Inr \<lparr>resp_status = 200,
                resp_headers = [''content-type'' \<mapsto> ''application/json''],
                resp_body = ''\"ABC\"''\<rparr>,
           [], [Enter 0, Enter 1, Enter 2, RunHandler])"
proof -
  let ?r = "\<lparr>method' = ''GET'', path = ''/'', handler = orderHandler,
             middlewares = Some [marking ''C'']\<rparr>"
  let ?app = "\<lparr>appRoutes = [?r], globalMiddlewares = [marking ''A'', marking ''B''],
               errorHandler = None, development = True\<rparr>"
  let ?req = "\<lparr>req_method = ''GET'', req_pathname = ''/''\<rparr>"
  have f: "findRouteBy matchPath (appRoutes ?app) (req_method ?req) (req_pathname ?req)
             = Inr (Some (?r, Map.empty))"
    by (simp add: matchPath_root)
  have e: "executeMiddlewareChain ((newContext ?req)\<lparr>ctx_params := Map.empty\<rparr>)
             [marking ''A'', marking ''B'', marking ''C''] orderHandler
           = Some (Inr \<lparr>resp_status = 200,
                        resp_headers = [''content-type'' \<mapsto> ''application/json''],
                        resp_body = ''\"ABC\"''\<rparr>,
                   (newContext ?req)\<lparr>ctx_state := [''order'' \<mapsto> JStr ''ABC'']\<rparr>,
                   [Enter 0, Enter 1, Enter 2, RunHandler])"
    by (simp add: executeMiddlewareChain_def marking_def orderHandler_def newContext_def json_def
          newResponse_def nullBodyStatus_def quoteJSONString_def quoteChar_def)
  from middleware_order[where app = ?app and req = ?req and r = ?r and ps = Map.empty
      and hst = exampleHost and mp = matchPath] f e show ?thesis
    by (simp add: handleRequest_def)
qed

text \<open>
  Claim C5, as amended. If a middleware returns a \<^verbatim>\<open>Response\<close> without awaiting
  \<^verbatim>\<open>next()\<close>, and every middleware before it awaits \<^verbatim>\<open>next()\<close> exactly once and then
  returns without a \<^verbatim>\<open>Response\<close> of its own and without throwing, then no middleware
  after it and not the handler is invoked, and the result of the chain is exactly that
  \<^verbatim>\<open>Response\<close>.
\<close>

theorem short_circuit:
  "(\<forall>p\<in>set pre. transparent p)
   \<and> runAlone b (foldl (\<lambda>x p. ctxAtNext p x) c pre) = Some (Inr (Resp r), cb)
   \<longrightarrow> (\<exists>c'. executeMiddlewareChain c (pre @ b # post) h
              = Some (Inr r, c', map Enter [0..<Suc (length pre)]))"
proof
  assume a: "(\<forall>p\<in>set pre. transparent p)
   \<and> runAlone b (foldl (\<lambda>x p. ctxAtNext p x) c pre) = Some (Inr (Resp r), cb)"
  let ?ini = "\<lparr>index = 0, response = None, the_context = c, trace = []\<rparr>"
  let ?cx = "foldl (\<lambda>x p. ctxAtNext p x) c pre"
  let ?st = "?ini\<lparr>index := length pre, trace := trace ?ini @ map Enter [index ?ini..<length pre],
              the_context := foldl (\<lambda>x p. ctxAtNext p x) (the_context ?ini) (drop (index ?ini) pre)\<rparr>"
  let ?sta = "?st\<lparr>index := Suc (index ?st), trace := trace ?st @ [Enter (index ?st)]\<rparr>"
  let ?stb = "\<lparr>index = Suc (length pre), response = Some r, the_context = cb,
               trace = map Enter [0..<Suc (length pre)]\<rparr>"
  from a have "runAlone b (the_context ?sta) = Some (Inr (Resp r), cb)" by simp
  from runAlone_callMiddleware[OF this, of "nextCall (pre @ b # post) h"]
  have "callMiddleware (nextCall (pre @ b # post) h) b ?sta
          = Some (Inr (Resp r), ?sta\<lparr>the_context := cb\<rparr>)" .
  then have "nextCall (pre @ b # post) h ?st = Some (Resolved, ?stb)"
    by (subst nextCall_unfold) simp
  with nextCall_transparent_prefix[of pre ?ini "b # post" h ?stb] a
  obtain c' where "nextCall (pre @ b # post) h ?ini = Some (Resolved, ?stb\<lparr>the_context := c'\<rparr>)"
    by auto
  then have "executeMiddlewareChain c (pre @ b # post) h
              = Some (Inr r, c', map Enter [0..<Suc (length pre)])"
    by (simp add: executeMiddlewareChain_nextCall)
  then show "\<exists>c'. executeMiddlewareChain c (pre @ b # post) h
              = Some (Inr r, c', map Enter [0..<Suc (length pre)])" by blast
qed

theorem short_circuit_witness:
  "(case executeMiddlewareChain exampleContext
          [marking ''A'', Return (Resp (textResponse ''B'')), marking ''C''] orderHandler of
      Some (res, c', tr) \<Rightarrow> res = Inr (textResponse ''B'') \<and> tr = [Enter 0, Enter 1]
    | None \<Rightarrow> False)"
proof -
  have "(\<forall>p\<in>set [marking ''A'']. transparent p)
     \<and> runAlone (Return (Resp (textResponse ''B'')))
         (foldl (\<lambda>x p. ctxAtNext p x) exampleContext [marking ''A''])
       = Some (Inr (Resp (textResponse ''B'')),
               foldl (\<lambda>x p. ctxAtNext p x) exampleContext [marking ''A''])"
    by (simp add: transparent_marking)
  with short_circuit[of "[marking ''A'']" "Return (Resp (textResponse ''B''))" exampleContext
      "textResponse ''B''" "foldl (\<lambda>x p. ctxAtNext p x) exampleContext [marking ''A'']"
      "[marking ''C'']" orderHandler]
  obtain c' where "executeMiddlewareChain exampleContext
          ([marking ''A''] @ Return (Resp (textResponse ''B'')) # [marking ''C'']) orderHandler
      = Some (Inr (textResponse ''B''), c', map Enter [0..<Suc (length [marking ''A''])])"
    by blast
  then show ?thesis by (simp add: upt_rec)
qed

text \<open>
  The claim as stated fails in two ways. A middleware before the short-circuiting one
  that returns a \<^verbatim>\<open>Response\<close> after \<^verbatim>\<open>next()\<close> replaces the response: the result is
  \<open>A\<close>'s, not \<open>B\<close>'s. And one that awaits \<^verbatim>\<open>next()\<close> a second time makes the
  middleware after \<open>B\<close> run.
\<close>

theorem short_circuit_counterexample:
  "executeMiddlewareChain exampleContext
      [AwaitNext (\<lambda>a. Return (Resp (textResponse ''A''))), Return (Resp (textResponse ''B''))]
      orderHandler
     = Some (Inr (textResponse ''A''), exampleContext, [Enter 0, Enter 1])
   \<and> executeMiddlewareChain exampleContext
      [AwaitNext (\<lambda>a. AwaitNext (\<lambda>b. Return Undefined)), Return (Resp (textResponse ''B'')),
       Return Undefined]
      orderHandler
     = Some (Inr (textResponse ''B''), exampleContext, [Enter 0, Enter 1, Enter 2])"
  by (simp add: executeMiddlewareChain_def)

text \<open>What \<^verbatim>\<open>context.json\<close> makes of the handler's value is the result of the chain.\<close>

lemma executeMiddlewareChain_wrapped:
  assumes all: "\<forall>p\<in>set mws. transparent p"
    and hv: "h (foldl (\<lambda>x p. ctxAtNext p x) c mws) = (Inr (Data v), ch)"
    and j: "json ch v None = Inr r"
  shows "\<exists>c'. executeMiddlewareChain c mws h
           = Some (Inr r, c', map Enter [0..<length mws] @ [RunHandler])"
proof -
  let ?ini = "\<lparr>index = 0, response = None, the_context = c, trace = []\<rparr>"
  let ?st = "?ini\<lparr>index := length mws, trace := trace ?ini @ map Enter [index ?ini..<length mws],
              the_context := foldl (\<lambda>x p. ctxAtNext p x) (the_context ?ini) (drop (index ?ini) mws)\<rparr>"
  let ?stb = "\<lparr>index = length mws, response = Some r, the_context = ch,
               trace = map Enter [0..<length mws] @ [RunHandler]\<rparr>"
  from hv j have "nextCall (mws @ []) h ?st = Some (Resolved, ?stb)"
    by (subst nextCall_unfold) simp
  with nextCall_transparent_prefix[of mws ?ini "[]" h ?stb] all
  obtain c' where "nextCall mws h ?ini = Some (Resolved, ?stb\<lparr>the_context := c'\<rparr>)"
    by auto
  then have "executeMiddlewareChain c mws h
              = Some (Inr r, c', map Enter [0..<length mws] @ [RunHandler])"
    by (simp add: executeMiddlewareChain_nextCall)
  then show ?thesis by blast
qed




text \<open>
  Claim C8, as amended. When an exception leaves the middleware chain (no middleware
  caught it), the dispatcher answers with one \<^verbatim>\<open>Response\<close>. Without an error handler it
  has status 500 and the JSON text of an object whose \<^verbatim>\<open>message\<close> is the message of the
  thrown \<^verbatim>\<open>Error\<close>. If an error handler is set and itself throws, that exception is
  written to the console and the same default response with status 500 is returned.
  This holds for every way \<open>mp\<close> of matching a pattern.
\<close>

theorem uncaught_error_response:
  "findRouteBy mp (appRoutes app) (req_method req) (req_pathname req) = Inr (Some (r, ps))
   \<and> executeMiddlewareChain ((newContext req)\<lparr>ctx_params := ps\<rparr>)
        (globalMiddlewares app @ (case middlewares r of None \<Rightarrow> [] | Some ms \<Rightarrow> ms))
        (handler r) = Some (Inl e, c', tr)
   \<longrightarrow>
     (errorHandler app = None \<longrightarrow>
        handleRequestBy mp hst app req =
          Some (Inr \<lparr>resp_status = 500,
                     resp_headers = (ctx_headers c')(''content-type'' \<mapsto> ''application/json''),
                     resp_body = JSON_stringify (errorBody hst (development app) e)\<rparr>,
                [UnhandledError e], tr))
     \<and> (\<forall>eh e2 c2. errorHandler app = Some eh \<and> instanceofError e \<and> eh e c' = (Inl e2, c2) \<longrightarrow>
        handleRequestBy mp hst app req =
          Some (Inr \<lparr>resp_status = 500,
                     resp_headers = (ctx_headers c2)(''content-type'' \<mapsto> ''application/json''),
                     resp_body = JSON_stringify (errorBody hst (development app) e)\<rparr>,
                [ErrorInErrorHandler e2, UnhandledError e], tr))
     \<and> (\<forall>msg stk. e = JsError msg stk \<longrightarrow>
        JSON_stringify (errorBody hst (development app) e) =
          ''{'' @ quoteJSONString ''error'' @ '':'' @ quoteJSONString ''Internal Server Error''
          @ '','' @ quoteJSONString ''message'' @ '':'' @ quoteJSONString msg
          @ (case stk of
               Some s \<Rightarrow> if development app
                         then '','' @ quoteJSONString ''stack'' @ '':'' @ quoteJSONString s else []
             | None \<Rightarrow> [])
          @ ''}'')"
  by (auto simp: handleRequestBy_def newContext_def Let_def handleError_def json_500
        errorBody_def split: option.splits)

theorem uncaught_error_response_witness:
  "handleRequest exampleHost
     \<lparr>appRoutes = [\<lparr>method' = ''GET'', path = ''/'', handler = throwing ''boom'',
                       middlewares = Some []\<rparr>],
      globalMiddlewares = [], errorHandler = None, development = True\<rparr>
     \<lparr>req_method = ''GET'', req_pathname = ''/''\<rparr>
   = Some (Inr \<lparr>resp_status = 500,
                resp_headers = [''content-type'' \<mapsto> ''application/json''],
                resp_body = ''{\"error\":\"Internal Server Error\",\"message\":\"boom\"}''\<rparr>,
           [UnhandledError (JsError ''boom'' None)], [RunHandler])"
proof -
  let ?r = "\<lparr>method' = ''GET'', path = ''/'', handler = throwing ''boom'', middlewares = Some []\<rparr>"
  let ?app = "\<lparr>appRoutes = [?r], globalMiddlewares = [], errorHandler = None, development = True\<rparr>"
  let ?req = "\<lparr>req_method = ''GET'', req_pathname = ''/''\<rparr>"
  have "findRouteBy matchPath (appRoutes ?app) (req_method ?req) (req_pathname ?req)
             = Inr (Some (?r, Map.empty))
      \<and> executeMiddlewareChain ((newContext ?req)\<lparr>ctx_params := Map.empty\<rparr>)
          (globalMiddlewares ?app @ (case middlewares ?r of None \<Rightarrow> [] | Some ms \<Rightarrow> ms))
          (handler ?r)
        = Some (Inl (JsError ''boom'' None), (newContext ?req)\<lparr>ctx_params := Map.empty\<rparr>,
                [RunHandler])"
    by (simp add: matchPath_root executeMiddlewareChain_def throwing_def)
  with uncaught_error_response[where app = ?app and req = ?req and r = ?r and ps = Map.empty
        and e = "JsError ''boom'' None" and c' = "(newContext ?req)\<lparr>ctx_params := Map.empty\<rparr>"
        and tr = "[RunHandler]" and hst = exampleHost and mp = matchPath]
  show ?thesis
    by (simp add: handleRequest_def newContext_def quoteJSONString_def quoteChar_def)
qed

text \<open>
  The claim as stated fails when a middleware catches the exception. With the
  repository's \<^verbatim>\<open>errorHandler()\<close> middleware in front, the handler's \<^verbatim>\<open>Error("boom")\<close>
  never reaches the dispatcher, and the body of the response does not carry the message.
\<close>

theorem uncaught_error_response_counterexample:
  "handleRequest exampleHost
     \<lparr>appRoutes = [\<lparr>method' = ''GET'', path = ''/'', handler = throwing ''boom'',
                       middlewares = Some []\<rparr>],
      globalMiddlewares = [catching], errorHandler = None, development = True\<rparr>
     \<lparr>req_method = ''GET'', req_pathname = ''/''\<rparr>
   = Some (Inr \<lparr>resp_status = 500, resp_headers = Map.empty,
                resp_body = ''No response generated''\<rparr>,
           [], [Enter 0, RunHandler])"
  by (simp add: handleRequest_def handleRequestBy_def newContext_def matchPath_root
        executeMiddlewareChain_def throwing_def catching_def noResponseGenerated_def Let_def)

end
